theory Spec2Isabelle
  imports Main "HOL-Library.Word" "HOL-Library.Signed_Division"
begin

unbundle bit_operations_syntax

section \<open>Machine integers and platform constants\<close>

text \<open>
  The scanner of \<^verbatim>\<open>mm/thp_utilization.c\<close> computes with C \<^verbatim>\<open>int\<close> (32 bits, two's
  complement; the kernel is built so that signed arithmetic wraps) and with
  \<^verbatim>\<open>unsigned long\<close> (64 bits on the LP64 targets modelled here). A signed value is a
  word read through \<open>sint\<close> and compared with \<open><s\<close>; an unsigned one is read through
  \<open>uint\<close> and compared with \<open><\<close>.
\<close>

type_synonym c_int = "32 word"
type_synonym c_ulong = "64 word"

text \<open>C's \<^verbatim>\<open>/\<close> on \<^verbatim>\<open>int\<close>: the quotient truncated towards zero.\<close>

definition int_div :: "c_int \<Rightarrow> c_int \<Rightarrow> c_int" where
  "int_div a b = word_of_int (sint a sdiv sint b)"

text \<open>
  \<^verbatim>\<open>HPAGE_PMD_NR\<close> (an \<^verbatim>\<open>int\<close>: the number of base pages of a PMD-sized huge page) and
  \<^verbatim>\<open>HPAGE_PMD_SIZE\<close> (an \<^verbatim>\<open>unsigned long\<close>: its size in bytes) are macros of a header that
  is not part of the file at hand. They are parameters of every function that uses them.
\<close>

record platform =
  HPAGE_PMD_NR :: c_int
  HPAGE_PMD_SIZE :: c_ulong

text \<open>The values on x86-64 with 4 KiB base pages and 2 MiB huge pages.\<close>

definition x86_64 :: platform where
  "x86_64 = \<lparr>HPAGE_PMD_NR = 512, HPAGE_PMD_SIZE = 2097152\<rparr>"

definition THP_UTIL_BUCKET_NR :: c_int where
  "THP_UTIL_BUCKET_NR = 10"

definition THP_UTIL_SCAN_SIZE :: nat where
  "THP_UTIL_SCAN_SIZE = 256"

section \<open>Bucketizer: \<^verbatim>\<open>thp_utilization_bucket\<close>\<close>

definition thp_utilization_bucket :: "platform \<Rightarrow> c_int \<Rightarrow> c_int" where
  "thp_utilization_bucket P num_utilized_pages =
     (if num_utilized_pages <s 0 \<or> HPAGE_PMD_NR P <s num_utilized_pages then - 1
      else
        let bucket = int_div (num_utilized_pages * THP_UTIL_BUCKET_NR) (HPAGE_PMD_NR P)
        in if bucket <s THP_UTIL_BUCKET_NR - 1 then bucket else THP_UTIL_BUCKET_NR - 1)"

section \<open>Classifier: \<^verbatim>\<open>thp_number_utilized_pages\<close>\<close>

text \<open>
  A folio as the classifier sees it: the two flag tests and the content of its pages, page
  \<open>i\<close> being \<open>folio_pages f ! i\<close>, a list of bytes. A \<^verbatim>\<open>struct folio *\<close> that may be
  \<^verbatim>\<open>NULL\<close> is a \<open>folio option\<close>.
\<close>

type_synonym page_bytes = "8 word list"

record folio =
  folio_test_anon :: bool
  folio_test_large :: bool
  folio_pages :: "page_bytes list"

definition folio_nr_pages :: "folio \<Rightarrow> nat" where
  "folio_nr_pages f = length (folio_pages f)"

text \<open>
  Modelled from the spec: \<^verbatim>\<open>kmap_local_folio\<close> and \<^verbatim>\<open>memchr_inv\<close> are kernel helpers
  outside the file at hand. Following the spec's PageContentInspector, mapping page \<open>i\<close> of a
  folio gives that page's bytes, and the page is a zero page when every byte of it is zero
  (\<^verbatim>\<open>!memchr_inv(kaddr, 0, PAGE_SIZE)\<close>).
\<close>

definition kmap_local_folio :: "folio \<Rightarrow> nat \<Rightarrow> page_bytes" where
  "kmap_local_folio f i = folio_pages f ! i"

definition zero_page :: "page_bytes \<Rightarrow> bool" where
  "zero_page kaddr = list_all (\<lambda>b. b = 0) kaddr"

text \<open>
  The body of the \<^verbatim>\<open>for\<close> loop, for page index \<open>i\<close>, on the running value of
  \<^verbatim>\<open>thp_nr_utilized_pages\<close>. The loop runs over the \<^verbatim>\<open>folio_nr_pages(folio)\<close> pages of the
  folio, whatever their number, and starts from \<^verbatim>\<open>HPAGE_PMD_NR\<close>.
\<close>

definition count_page :: "folio \<Rightarrow> c_int \<Rightarrow> nat \<Rightarrow> c_int" where
  "count_page f thp_nr_utilized_pages i =
     (if zero_page (kmap_local_folio f i) then thp_nr_utilized_pages - 1
      else thp_nr_utilized_pages)"

definition thp_number_utilized_pages :: "platform \<Rightarrow> folio option \<Rightarrow> c_int" where
  "thp_number_utilized_pages P folio =
     (case folio of
        None \<Rightarrow> - 1
      | Some f \<Rightarrow>
          if \<not> folio_test_anon f \<or> \<not> folio_test_large f then - 1
          else foldl (count_page f) (HPAGE_PMD_NR P) [0..<folio_nr_pages f])"

section \<open>Scanner state and the page-frame database\<close>

text \<open>
  A zone as the scanner reads it: its start frame, the value of \<^verbatim>\<open>zone_end_pfn\<close> and of
  \<^verbatim>\<open>managed_zone\<close>; \<open>zone_id\<close> stands for the address of the \<^verbatim>\<open>struct zone\<close>. The
  page-frame database is the collaborator of the spec's section 6: the first zone of the
  first online node, the successor of a zone in enumeration order (\<open>None\<close> for \<^verbatim>\<open>NULL\<close>
  after the last zone), the online page of a frame number, and the folio of a page.
\<close>

record zone =
  zone_id :: nat
  zone_start_pfn :: c_ulong
  zone_end_pfn :: c_ulong
  managed_zone :: bool

type_synonym page = nat

record mem =
  first_zone :: zone
  next_zone :: "zone \<Rightarrow> zone option"
  pfn_to_online_page :: "c_ulong \<Rightarrow> page option"
  page_folio :: "page \<Rightarrow> folio option"

text \<open>
  A \<^verbatim>\<open>struct timespec64\<close>. Its fields are mathematical integers here: nothing below depends
  on their width.
\<close>

record timespec64 =
  tv_sec :: int
  tv_nsec :: int

record thp_scan_info_bucket =
  nr_thps :: c_int
  nr_zero_pages :: c_int

record thp_scan_info =
  buckets :: "thp_scan_info_bucket list"
  scan_zone :: "zone option"
  last_scan_duration :: timespec64
  last_scan_time :: timespec64
  pfn :: c_ulong

text \<open>The two file-scope variables.\<close>

record globals =
  thp_scan_debugfs :: thp_scan_info
  thp_scan :: thp_scan_info

definition zero_bucket :: thp_scan_info_bucket where
  "zero_bucket = \<lparr>nr_thps = 0, nr_zero_pages = 0\<rparr>"

definition zero_buckets :: "thp_scan_info_bucket list" where
  "zero_buckets = replicate (nat (sint THP_UTIL_BUCKET_NR)) zero_bucket"

definition zero_scan_info :: thp_scan_info where
  "zero_scan_info =
     \<lparr>buckets = zero_buckets, scan_zone = None,
      last_scan_duration = \<lparr>tv_sec = 0, tv_nsec = 0\<rparr>,
      last_scan_time = \<lparr>tv_sec = 0, tv_nsec = 0\<rparr>, pfn = 0\<rparr>"

text \<open>Both variables have static storage: they start zero-filled.\<close>

definition initial_globals :: globals where
  "initial_globals = \<lparr>thp_scan_debugfs = zero_scan_info, thp_scan = zero_scan_info\<rparr>"

section \<open>Advancing to the next zone: \<^verbatim>\<open>thp_scan_next_zone\<close>\<close>

text \<open>
  Modelled from the spec: \<^verbatim>\<open>timespec64_sub\<close> is a kernel helper outside the file at hand;
  it is the difference of the two times, normalised to \<open>0 \<le> tv_nsec < 10\<^sup>9\<close>.
\<close>

definition NSEC_PER_SEC :: int where
  "NSEC_PER_SEC = 1000000000"

definition timespec64_sub :: "timespec64 \<Rightarrow> timespec64 \<Rightarrow> timespec64" where
  "timespec64_sub lhs rhs =
     (let sec = tv_sec lhs - tv_sec rhs; nsec = tv_nsec lhs - tv_nsec rhs
      in \<lparr>tv_sec = sec + nsec div NSEC_PER_SEC, tv_nsec = nsec mod NSEC_PER_SEC\<rparr>)"

text \<open>
  \<open>current_time\<close> is what \<^verbatim>\<open>ktime_get_ts64\<close> returns if the function reads the clock.
  The function dereferences \<^verbatim>\<open>thp_scan.scan_zone\<close>: on \<^verbatim>\<open>NULL\<close> it faults, which is the
  result \<open>None\<close>.
\<close>

definition thp_scan_next_zone :: "platform \<Rightarrow> mem \<Rightarrow> timespec64 \<Rightarrow> globals \<Rightarrow> globals option" where
  "thp_scan_next_zone P M current_time g =
     (case scan_zone (thp_scan g) of
        None \<Rightarrow> None
      | Some z0 \<Rightarrow>
          let nz = next_zone M z0;
              update_debugfs = (nz = None);
              z = (case nz of None \<Rightarrow> first_zone M | Some z1 \<Rightarrow> z1);
              s = (thp_scan g)
                    \<lparr>scan_zone := Some z,
                     pfn := (zone_start_pfn z + scast (HPAGE_PMD_NR P) - 1)
                              AND NOT (HPAGE_PMD_SIZE P - 1)\<rparr>
          in if \<not> update_debugfs then Some (g\<lparr>thp_scan := s\<rparr>)
             else
               let d = thp_scan_debugfs g;
                   d1 = d\<lparr>last_scan_duration := timespec64_sub current_time (last_scan_time d)\<rparr>;
                   d2 = d1\<lparr>last_scan_time := current_time\<rparr>;
                   d3 = d2\<lparr>buckets := buckets s\<rparr>
               in Some \<lparr>thp_scan_debugfs = d3, thp_scan = s\<lparr>buckets := zero_buckets\<rparr>\<rparr>)"

section \<open>The scan loop: \<^verbatim>\<open>thp_util_scan\<close>\<close>

text \<open>
  The two statements that count a unit into \<^verbatim>\<open>thp_scan.buckets[bucket]\<close>. The index is
  the value of an \<^verbatim>\<open>int\<close> that is at least 0 where this is called.
\<close>

definition count_thp :: "platform \<Rightarrow> c_int \<Rightarrow> c_int \<Rightarrow> thp_scan_info_bucket list \<Rightarrow> thp_scan_info_bucket list" where
  "count_thp P bucket num_utilized_pages bs =
     (let i = nat (sint bucket);
          b1 = (bs ! i)\<lparr>nr_thps := nr_thps (bs ! i) + 1\<rparr>;
          b2 = b1\<lparr>nr_zero_pages := nr_zero_pages b1 + (HPAGE_PMD_NR P - num_utilized_pages)\<rparr>
      in bs[i := b2])"

text \<open>
  One iteration of the loop body. The first component is \<open>True\<close> when the iteration ends
  in \<^verbatim>\<open>return\<close>. \<^verbatim>\<open>current_pfn\<close> is an \<^verbatim>\<open>int\<close>: the assignment keeps the low 32 bits of
  \<^verbatim>\<open>thp_scan.pfn\<close>, and both the comparison with \<^verbatim>\<open>pfn_end\<close> and the call of
  \<^verbatim>\<open>pfn_to_online_page\<close> convert it back to \<^verbatim>\<open>unsigned long\<close> with sign extension.
\<close>

definition thp_util_scan_step :: "platform \<Rightarrow> mem \<Rightarrow> c_ulong \<Rightarrow> thp_scan_info \<Rightarrow> bool \<times> thp_scan_info" where
  "thp_util_scan_step P M pfn_end s =
     (let current_pfn = (ucast (pfn s) :: c_int);
          s1 = s\<lparr>pfn := pfn s + scast (HPAGE_PMD_NR P)\<rparr>
      in if pfn_end \<le> (scast current_pfn :: c_ulong) then (True, s1)
         else
           case pfn_to_online_page M (scast current_pfn) of
             None \<Rightarrow> (False, s1)
           | Some page \<Rightarrow>
               let num_utilized_pages = thp_number_utilized_pages P (page_folio M page);
                   bucket = thp_utilization_bucket P num_utilized_pages
               in if bucket <s 0 then (False, s1)
                  else (False, s1\<lparr>buckets := count_thp P bucket num_utilized_pages (buckets s1)\<rparr>))"

text \<open>
  The \<^verbatim>\<open>for\<close> loop from the value \<open>i\<close> of its counter. The result is the counter when the
  function returns, which is the number of iterations that ran to their end, and the state.
\<close>

function thp_util_scan_from :: "platform \<Rightarrow> mem \<Rightarrow> c_ulong \<Rightarrow> nat \<Rightarrow> thp_scan_info \<Rightarrow> nat \<times> thp_scan_info" where
  "thp_util_scan_from P M pfn_end i s =
     (if i < THP_UTIL_SCAN_SIZE then
        (case thp_util_scan_step P M pfn_end s of
           (True, s') \<Rightarrow> (i, s')
         | (False, s') \<Rightarrow> thp_util_scan_from P M pfn_end (Suc i) s')
      else (i, s))"
  by pat_completeness auto
termination
  by (relation "measure (\<lambda>(P, M, pfn_end, i, s). THP_UTIL_SCAN_SIZE - i)") auto

declare thp_util_scan_from.simps [simp del]

definition thp_util_scan :: "platform \<Rightarrow> mem \<Rightarrow> c_ulong \<Rightarrow> thp_scan_info \<Rightarrow> nat \<times> thp_scan_info" where
  "thp_util_scan P M pfn_end s = thp_util_scan_from P M pfn_end 0 s"

section \<open>One firing of the worker: \<^verbatim>\<open>thp_utilization_workfn\<close>\<close>

text \<open>
  One run of the work function; the re-arming of the delayed work is the caller's next
  firing. \<open>now\<close> is the clock value of this firing.
\<close>

definition thp_utilization_workfn :: "platform \<Rightarrow> mem \<Rightarrow> timespec64 \<Rightarrow> globals \<Rightarrow> globals option" where
  "thp_utilization_workfn P M now g0 =
     (let g = (if scan_zone (thp_scan g0) = None
               then g0\<lparr>thp_scan := (thp_scan g0)\<lparr>scan_zone := Some (first_zone M)\<rparr>\<rparr>
               else g0)
      in case scan_zone (thp_scan g) of
           None \<Rightarrow> None
         | Some z \<Rightarrow>
             let pfn_end = zone_end_pfn z
             in if \<not> managed_zone z \<or> pfn_end \<le> pfn (thp_scan g)
                then thp_scan_next_zone P M now g
                else Some (g\<lparr>thp_scan := snd (thp_util_scan P M pfn_end (thp_scan g))\<rparr>))"


text \<open>
  The frame number a loop iteration works on: \<^verbatim>\<open>current_pfn\<close>, the low 32 bits of the
  cursor read as an \<^verbatim>\<open>int\<close>, converted to the \<^verbatim>\<open>unsigned long\<close> that the comparison with
  \<^verbatim>\<open>pfn_end\<close> and \<^verbatim>\<open>pfn_to_online_page\<close> take.
\<close>

definition current_frame :: "thp_scan_info \<Rightarrow> c_ulong" where
  "current_frame s = scast (ucast (pfn s) :: c_int)"

text \<open>The state after \<open>k\<close> iterations of the loop body.\<close>

definition after_steps :: "platform \<Rightarrow> mem \<Rightarrow> c_ulong \<Rightarrow> nat \<Rightarrow> thp_scan_info \<Rightarrow> thp_scan_info" where
  "after_steps P M pfn_end k s = ((\<lambda>s'. snd (thp_util_scan_step P M pfn_end s')) ^^ k) s"

text \<open>The zone a firing works on: a \<^verbatim>\<open>NULL\<close> \<^verbatim>\<open>scan_zone\<close> is first replaced by the first zone.\<close>

definition firing_zone :: "mem \<Rightarrow> globals \<Rightarrow> zone" where
  "firing_zone M g = (case scan_zone (thp_scan g) of None \<Rightarrow> first_zone M | Some z \<Rightarrow> z)"

section \<open>Reading the snapshot: \<^verbatim>\<open>thp_utilization_show\<close>\<close>

text \<open>
  The values that the \<^verbatim>\<open>seq_printf\<close> calls print, in order: one line per bucket with the
  bounds of its range and its two counters, then seconds and hundredths of the last scan
  time and of the last scan duration.
\<close>

record utilized_line =
  range_start :: c_int
  range_end :: c_int
  shown_thps :: c_int
  shown_zero_pages :: c_int

record shown =
  utilized :: "utilized_line list"
  shown_scan_time :: "c_ulong \<times> int"
  shown_scan_duration :: "c_ulong \<times> int"

definition show_line :: "platform \<Rightarrow> thp_scan_info \<Rightarrow> nat \<Rightarrow> utilized_line" where
  "show_line P d n =
     (let i = (word_of_nat n :: c_int);
          start = int_div (i * HPAGE_PMD_NR P) THP_UTIL_BUCKET_NR;
          end = (if i + 1 = THP_UTIL_BUCKET_NR then HPAGE_PMD_NR P
                 else int_div ((i + 1) * HPAGE_PMD_NR P) THP_UTIL_BUCKET_NR - 1)
      in \<lparr>range_start = start, range_end = end,
          shown_thps = nr_thps (buckets d ! n),
          shown_zero_pages = nr_zero_pages (buckets d ! n)\<rparr>)"

definition show_time :: "timespec64 \<Rightarrow> c_ulong \<times> int" where
  "show_time t = (word_of_int (tv_sec t), tv_nsec t sdiv (NSEC_PER_SEC sdiv 100))"

definition thp_utilization_show :: "platform \<Rightarrow> globals \<Rightarrow> shown" where
  "thp_utilization_show P g =
     \<lparr>utilized = map (show_line P (thp_scan_debugfs g)) [0..<nat (sint THP_UTIL_BUCKET_NR)],
      shown_scan_time = show_time (last_scan_time (thp_scan_debugfs g)),
      shown_scan_duration = show_time (last_scan_duration (thp_scan_debugfs g))\<rparr>"

section \<open>The scan loop on the full frame number\<close>

text \<open>
  For comparison with \<open>thp_util_scan\<close>: the same loop with \<^verbatim>\<open>current_pfn\<close> holding the
  cursor's full 64-bit frame number, so that the end-of-zone test and the page lookup are on
  the cursor itself. This is not the code; it is what the code is compared with.
\<close>

definition thp_util_scan_step_wide :: "platform \<Rightarrow> mem \<Rightarrow> c_ulong \<Rightarrow> thp_scan_info \<Rightarrow> bool \<times> thp_scan_info" where
  "thp_util_scan_step_wide P M pfn_end s =
     (let current_pfn = pfn s;
          s1 = s\<lparr>pfn := pfn s + scast (HPAGE_PMD_NR P)\<rparr>
      in if pfn_end \<le> current_pfn then (True, s1)
         else
           case pfn_to_online_page M current_pfn of
             None \<Rightarrow> (False, s1)
           | Some page \<Rightarrow>
               let num_utilized_pages = thp_number_utilized_pages P (page_folio M page);
                   bucket = thp_utilization_bucket P num_utilized_pages
               in if bucket <s 0 then (False, s1)
                  else (False, s1\<lparr>buckets := count_thp P bucket num_utilized_pages (buckets s1)\<rparr>))"

function thp_util_scan_from_wide :: "platform \<Rightarrow> mem \<Rightarrow> c_ulong \<Rightarrow> nat \<Rightarrow> thp_scan_info \<Rightarrow> nat \<times> thp_scan_info" where
  "thp_util_scan_from_wide P M pfn_end i s =
     (if i < THP_UTIL_SCAN_SIZE then
        (case thp_util_scan_step_wide P M pfn_end s of
           (True, s') \<Rightarrow> (i, s')
         | (False, s') \<Rightarrow> thp_util_scan_from_wide P M pfn_end (Suc i) s')
      else (i, s))"
  by pat_completeness auto
termination
  by (relation "measure (\<lambda>(P, M, pfn_end, i, s). THP_UTIL_SCAN_SIZE - i)") auto

declare thp_util_scan_from_wide.simps [simp del]

definition thp_util_scan_wide :: "platform \<Rightarrow> mem \<Rightarrow> c_ulong \<Rightarrow> thp_scan_info \<Rightarrow> nat \<times> thp_scan_info" where
  "thp_util_scan_wide P M pfn_end s = thp_util_scan_from_wide P M pfn_end 0 s"

section \<open>Passes\<close>

text \<open>
  The units a pass encounters, as the list of the classifier's results in the order of the
  scan. An iteration of the loop contributes the classifier's result for the unit at the
  cursor when it gets as far as calling the classifier, and nothing otherwise.
\<close>

definition step_examined :: "platform \<Rightarrow> mem \<Rightarrow> c_ulong \<Rightarrow> thp_scan_info \<Rightarrow> c_int list" where
  "step_examined P M pfn_end s =
     (if pfn_end \<le> current_frame s then []
      else case pfn_to_online_page M (current_frame s) of
             None \<Rightarrow> []
           | Some page \<Rightarrow> [thp_number_utilized_pages P (page_folio M page)])"

text \<open>The same for the iterations of one call of \<open>thp_util_scan\<close> that ran to their end.\<close>

definition scan_examined :: "platform \<Rightarrow> mem \<Rightarrow> c_ulong \<Rightarrow> thp_scan_info \<Rightarrow> c_int list" where
  "scan_examined P M pfn_end s =
     concat (map (\<lambda>k. step_examined P M pfn_end (after_steps P M pfn_end k s))
               [0..<fst (thp_util_scan P M pfn_end s)])"

text \<open>
  The units of the current pass after a firing, from those before it: a firing that scans
  adds the units it examines; a firing that advances the zone keeps the list, or starts the
  next pass with the empty list when the advance wraps.
\<close>

definition firing_examined :: "platform \<Rightarrow> mem \<Rightarrow> globals \<Rightarrow> c_int list \<Rightarrow> c_int list" where
  "firing_examined P M g us =
     (let z = firing_zone M g;
          s = (thp_scan g)\<lparr>scan_zone := Some z\<rparr>
      in if managed_zone z \<and> pfn (thp_scan g) < zone_end_pfn z
         then us @ scan_examined P M (zone_end_pfn z) s
         else if next_zone M z = None then [] else us)"

text \<open>
  A run of the worker: one firing after the other, each with the page-frame database and the
  clock it finds. \<open>run_examined\<close> follows the units of the pass that is current at the end.
\<close>

fun run :: "platform \<Rightarrow> (mem \<times> timespec64) list \<Rightarrow> globals \<Rightarrow> globals option" where
  "run P [] g = Some g"
| "run P ((M, now) # fs) g =
     (case thp_utilization_workfn P M now g of
        None \<Rightarrow> None
      | Some g' \<Rightarrow> run P fs g')"

fun run_examined :: "platform \<Rightarrow> (mem \<times> timespec64) list \<Rightarrow> globals \<Rightarrow> c_int list \<Rightarrow> c_int list" where
  "run_examined P [] g us = us"
| "run_examined P ((M, now) # fs) g us =
     (case thp_utilization_workfn P M now g of
        None \<Rightarrow> us
      | Some g' \<Rightarrow> run_examined P fs g' (firing_examined P M g us))"

text \<open>The units of a list that the bucketizer places in bucket \<open>b\<close>, and those it places at all.\<close>

definition placed :: "platform \<Rightarrow> nat \<Rightarrow> c_int list \<Rightarrow> c_int list" where
  "placed P b us = filter (\<lambda>u. thp_utilization_bucket P u = word_of_nat b) us"

definition valid_units :: "platform \<Rightarrow> c_int list \<Rightarrow> c_int list" where
  "valid_units P us = filter (\<lambda>u. \<not> thp_utilization_bucket P u <s 0) us"

text \<open>
  The accumulator \<open>bs\<close> accounts for the units \<open>us\<close>, in the arithmetic of its \<^verbatim>\<open>int\<close>
  counters: bucket \<open>b\<close> counts the units placed in \<open>b\<close> and sums \<open>N\<close> minus their utilized
  counts.
\<close>

definition acc_inv :: "platform \<Rightarrow> thp_scan_info_bucket list \<Rightarrow> c_int list \<Rightarrow> bool" where
  "acc_inv P bs us \<longleftrightarrow>
     length bs = 10 \<and>
     (\<forall>b < 10. nr_thps (bs ! b) = word_of_nat (length (placed P b us)) \<and>
               nr_zero_pages (bs ! b) = sum_list (map (\<lambda>u. HPAGE_PMD_NR P - u) (placed P b us)))"

section \<open>Example inputs\<close>

text \<open>
  The scenario of the spec's section 8: a huge page that is zero except for one byte of its
  first page.
\<close>

definition one_byte_thp :: folio where
  "one_byte_thp =
     \<lparr>folio_test_anon = True, folio_test_large = True,
      folio_pages = (1 # replicate 4095 0) # replicate 511 (replicate 4096 0)\<rparr>"

text \<open>
  Two managed zones of one huge page each; frame 0 is the head of the huge page above and
  no other frame is online.
\<close>

definition zone_A :: zone where
  "zone_A = \<lparr>zone_id = 0, zone_start_pfn = 0, zone_end_pfn = 512, managed_zone = True\<rparr>"

definition zone_B :: zone where
  "zone_B = \<lparr>zone_id = 1, zone_start_pfn = 512, zone_end_pfn = 1024, managed_zone = True\<rparr>"

definition two_zones :: mem where
  "two_zones =
     \<lparr>first_zone = zone_A,
      next_zone = (\<lambda>z. if zone_id z = 0 then Some zone_B else None),
      pfn_to_online_page = (\<lambda>p. if p = 0 then Some 0 else None),
      page_folio = (\<lambda>page. Some one_byte_thp)\<rparr>"

definition noon :: timespec64 where
  "noon = \<lparr>tv_sec = 43200, tv_nsec = 250000000\<rparr>"

text \<open>
  The zones of a one-node x86-64 machine with 16 GiB of memory: DMA, DMA32 and Normal. No
  frame is online in this example.
\<close>

definition zone_DMA :: zone where
  "zone_DMA = \<lparr>zone_id = 0, zone_start_pfn = 1, zone_end_pfn = 4096, managed_zone = True\<rparr>"

definition zone_DMA32 :: zone where
  "zone_DMA32 = \<lparr>zone_id = 1, zone_start_pfn = 4096, zone_end_pfn = 1048576, managed_zone = True\<rparr>"

definition zone_Normal :: zone where
  "zone_Normal = \<lparr>zone_id = 2, zone_start_pfn = 1048576, zone_end_pfn = 4194304, managed_zone = True\<rparr>"

definition x86_zones :: mem where
  "x86_zones =
     \<lparr>first_zone = zone_DMA,
      next_zone = (\<lambda>z. if zone_id z = 0 then Some zone_DMA32
                        else if zone_id z = 1 then Some zone_Normal else None),
      pfn_to_online_page = (\<lambda>p. None),
      page_folio = (\<lambda>page. None)\<rparr>"

text \<open>The scanner at the end of the last of the two zones, one unit counted in bucket 0.\<close>

definition pass_done :: globals where
  "pass_done =
     \<lparr>thp_scan_debugfs = zero_scan_info,
      thp_scan = zero_scan_info
        \<lparr>buckets := zero_buckets[0 := \<lparr>nr_thps = 1, nr_zero_pages = 511\<rparr>],
         scan_zone := Some zone_B, pfn := 1024\<rparr>\<rparr>"

text \<open>
  A machine whose single zone covers the frames below \<open>2\<^sup>3\<^sup>1\<close>, every huge-page-sized unit
  of it an anonymous huge page of zero bytes.
\<close>

definition zero_thp :: folio where
  "zero_thp =
     \<lparr>folio_test_anon = True, folio_test_large = True,
      folio_pages = replicate 512 (replicate 4096 0)\<rparr>"

definition zone_8T :: zone where
  "zone_8T = \<lparr>zone_id = 0, zone_start_pfn = 0, zone_end_pfn = 2147483648, managed_zone = True\<rparr>"

definition zero_mem :: mem where
  "zero_mem =
     \<lparr>first_zone = zone_8T,
      next_zone = (\<lambda>z. None),
      pfn_to_online_page = (\<lambda>p. Some 0),
      page_folio = (\<lambda>page. Some zero_thp)\<rparr>"

text \<open>A large anonymous folio of \<open>n\<close> pages, every byte of it zero.\<close>

definition zero_folio :: "nat \<Rightarrow> folio" where
  "zero_folio n =
     \<lparr>folio_test_anon = True, folio_test_large = True,
      folio_pages = replicate n (replicate 4096 0)\<rparr>"

section \<open>Properties of the bucketizer\<close>

lemma sint_mul10:
  fixes u :: c_int
  assumes "0 \<le> sint u" "sint u \<le> 214748364"
  shows "sint (u * THP_UTIL_BUCKET_NR) = sint u * 10"
proof -
  have "sint (u * 10) = signed_take_bit 31 (sint u * sint (10 :: c_int))"
    by (simp add: sint_word_ariths)
  also have "\<dots> = sint u * 10"
    using assms by (simp add: signed_take_bit_int_eq_self)
  finally show ?thesis by (simp add: THP_UTIL_BUCKET_NR_def)
qed

lemma sdiv_nonneg: "0 \<le> a \<Longrightarrow> 0 < b \<Longrightarrow> (a::int) sdiv b = a div b"
  by (simp add: signed_divide_int_def sgn_if)

lemma bucket_quot:
  fixes u :: c_int
  assumes "0 < sint (HPAGE_PMD_NR P)" "sint (HPAGE_PMD_NR P) \<le> 214748364"
    and "0 \<le> sint u" "sint u \<le> sint (HPAGE_PMD_NR P)"
  shows "sint (int_div (u * THP_UTIL_BUCKET_NR) (HPAGE_PMD_NR P)) = sint u * 10 div sint (HPAGE_PMD_NR P)"
proof -
  let ?n = "sint (HPAGE_PMD_NR P)"
  have m: "sint (u * THP_UTIL_BUCKET_NR) = sint u * 10"
    using assms by (intro sint_mul10) auto
  have q: "sint u * 10 div ?n \<le> 10"
  proof -
    have "sint u * 10 \<le> ?n * 10" using assms by simp
    then have "sint u * 10 div ?n \<le> ?n * 10 div ?n" by (rule zdiv_mono1) (use assms in simp)
    then show ?thesis using assms by simp
  qed
  have q0: "0 \<le> sint u * 10 div ?n" using assms by (simp add: pos_imp_zdiv_nonneg_iff)
  have "int_div (u * THP_UTIL_BUCKET_NR) (HPAGE_PMD_NR P) = word_of_int (sint u * 10 div ?n)"
    using assms by (simp add: int_div_def m sdiv_nonneg)
  moreover have "sint (word_of_int (sint u * 10 div ?n) :: c_int) = sint u * 10 div ?n"
    using q q0 by (simp add: sint_sbintrunc' signed_take_bit_int_eq_self)
  ultimately show ?thesis by simp
qed

lemma bucket_value:
  assumes "0 < sint (HPAGE_PMD_NR P)" "sint (HPAGE_PMD_NR P) \<le> 214748364"
    and "0 \<le> sint u" "sint u \<le> sint (HPAGE_PMD_NR P)"
  shows "sint (thp_utilization_bucket P u) = min (sint u * 10 div sint (HPAGE_PMD_NR P)) 9"
  using assms bucket_quot [OF assms]
  by (simp add: thp_utilization_bucket_def Let_def word_sless_alt THP_UTIL_BUCKET_NR_def min_def)

lemma bucket_x86_64:
  "thp_utilization_bucket x86_64 0 = 0" "thp_utilization_bucket x86_64 256 = 5"
  "thp_utilization_bucket x86_64 511 = 9" "thp_utilization_bucket x86_64 512 = 9"
  by (simp_all add: thp_utilization_bucket_def x86_64_def int_div_def THP_UTIL_BUCKET_NR_def
      word_sless_alt signed_divide_int_def Let_def)

lemma bucket_invalid_iff:
  assumes "0 < sint (HPAGE_PMD_NR P)" "sint (HPAGE_PMD_NR P) \<le> 214748364"
  shows "thp_utilization_bucket P u = - 1 \<longleftrightarrow> sint u < 0 \<or> sint (HPAGE_PMD_NR P) < sint u"
proof (cases "sint u < 0 \<or> sint (HPAGE_PMD_NR P) < sint u")
  case True
  then show ?thesis by (auto simp add: thp_utilization_bucket_def word_sless_alt)
next
  case False
  then have r: "0 \<le> sint u" "sint u \<le> sint (HPAGE_PMD_NR P)" by auto
  have "0 \<le> sint u * 10 div sint (HPAGE_PMD_NR P)"
    using assms r by (simp add: pos_imp_zdiv_nonneg_iff)
  then have "0 \<le> sint (thp_utilization_bucket P u)"
    using bucket_value [OF assms r] by simp
  then have "thp_utilization_bucket P u \<noteq> - 1" by auto
  with False show ?thesis by simp
qed

text \<open>
  C4: the bucketizer returns the invalid value \<open>-1\<close> exactly when the count is negative or
  above \<open>N = HPAGE_PMD_NR\<close>; otherwise it returns \<open>\<lfloor>u * B / N\<rfloor>\<close> clamped to \<open>B - 1 = 9\<close>.
  With \<open>N = 512\<close>: counts 0, 256, 511 and 512 fall into buckets 0, 5, 9 and 9. \<open>N\<close> is any
  positive constant for which \<open>10 * N\<close> fits an \<^verbatim>\<open>int\<close>.
\<close>

theorem thp_utilization_bucket_spec:
  assumes "0 < sint (HPAGE_PMD_NR P)" "sint (HPAGE_PMD_NR P) \<le> 214748364"
  shows "(thp_utilization_bucket P u = - 1 \<longleftrightarrow> sint u < 0 \<or> sint (HPAGE_PMD_NR P) < sint u) \<and>
         (0 \<le> sint u \<and> sint u \<le> sint (HPAGE_PMD_NR P) \<longrightarrow>
            sint (thp_utilization_bucket P u) = min (sint u * 10 div sint (HPAGE_PMD_NR P)) 9) \<and>
         thp_utilization_bucket x86_64 0 = 0 \<and> thp_utilization_bucket x86_64 256 = 5 \<and>
         thp_utilization_bucket x86_64 511 = 9 \<and> thp_utilization_bucket x86_64 512 = 9"
  using bucket_invalid_iff [OF assms] bucket_value [OF assms] bucket_x86_64 by simp

theorem thp_utilization_bucket_spec_witness:
  "0 < sint (HPAGE_PMD_NR x86_64) \<and> sint (HPAGE_PMD_NR x86_64) \<le> 214748364 \<and>
   thp_utilization_bucket x86_64 (- 3) = - 1 \<and> thp_utilization_bucket x86_64 513 = - 1 \<and>
   0 \<le> sint (300 :: c_int) \<and> sint (300 :: c_int) \<le> sint (HPAGE_PMD_NR x86_64) \<and>
   sint (thp_utilization_bucket x86_64 300) = 5"
proof -
  have h: "0 < sint (HPAGE_PMD_NR x86_64)" "sint (HPAGE_PMD_NR x86_64) \<le> 214748364"
    by (simp_all add: x86_64_def)
  show ?thesis
    using h thp_utilization_bucket_spec [OF h, of "- 3"] thp_utilization_bucket_spec [OF h, of 513]
      thp_utilization_bucket_spec [OF h, of 300]
    by (simp add: x86_64_def)
qed

text \<open>
  C8: for every count in \<open>[0, N]\<close> the bucketizer returns an index in \<open>[0, B - 1]\<close>, and it
  is monotonically non-decreasing on \<open>[0, N]\<close>.
\<close>

theorem thp_utilization_bucket_range_mono:
  assumes "0 < sint (HPAGE_PMD_NR P)" "sint (HPAGE_PMD_NR P) \<le> 214748364"
    and "0 \<le> sint u" "sint u \<le> sint v" "sint v \<le> sint (HPAGE_PMD_NR P)"
  shows "0 \<le> sint (thp_utilization_bucket P u) \<and>
         sint (thp_utilization_bucket P u) \<le> sint THP_UTIL_BUCKET_NR - 1 \<and>
         sint (thp_utilization_bucket P u) \<le> sint (thp_utilization_bucket P v)"
proof -
  let ?n = "sint (HPAGE_PMD_NR P)"
  have u: "sint (thp_utilization_bucket P u) = min (sint u * 10 div ?n) 9"
    using assms by (intro bucket_value) auto
  have v: "sint (thp_utilization_bucket P v) = min (sint v * 10 div ?n) 9"
    using assms by (intro bucket_value) auto
  have "0 \<le> sint u * 10 div ?n"
    using assms by (simp add: pos_imp_zdiv_nonneg_iff)
  moreover have "sint u * 10 div ?n \<le> sint v * 10 div ?n"
    using assms by (intro zdiv_mono1) auto
  ultimately show ?thesis
    using u v by (simp add: THP_UTIL_BUCKET_NR_def)
qed

theorem thp_utilization_bucket_range_mono_witness:
  "0 < sint (HPAGE_PMD_NR x86_64) \<and> sint (HPAGE_PMD_NR x86_64) \<le> 214748364 \<and>
   0 \<le> sint (51 :: c_int) \<and> sint (51 :: c_int) \<le> sint (52 :: c_int) \<and>
   sint (52 :: c_int) \<le> sint (HPAGE_PMD_NR x86_64) \<and>
   0 \<le> sint (thp_utilization_bucket x86_64 51) \<and>
   sint (thp_utilization_bucket x86_64 51) \<le> sint THP_UTIL_BUCKET_NR - 1 \<and>
   sint (thp_utilization_bucket x86_64 51) \<le> sint (thp_utilization_bucket x86_64 52)"
proof -
  have h: "0 < sint (HPAGE_PMD_NR x86_64)" "sint (HPAGE_PMD_NR x86_64) \<le> 214748364"
    "0 \<le> sint (51 :: c_int)" "sint (51 :: c_int) \<le> sint (52 :: c_int)"
    "sint (52 :: c_int) \<le> sint (HPAGE_PMD_NR x86_64)"
    by (simp_all add: x86_64_def)
  show ?thesis
    using h thp_utilization_bucket_range_mono [OF h] by simp
qed

section \<open>Properties of the classifier\<close>

lemma foldl_count_page:
  "foldl (count_page f) n [0..<k] =
     n - of_nat (length (filter (\<lambda>i. zero_page (kmap_local_folio f i)) [0..<k]))"
  by (induction k) (simp_all add: count_page_def)

lemma zero_page_indices:
  "length (filter (\<lambda>i. zero_page (kmap_local_folio f i)) [0..<folio_nr_pages f]) =
     length (filter zero_page (folio_pages f))"
proof -
  have "map (kmap_local_folio f) [0..<folio_nr_pages f] = folio_pages f"
    by (simp add: kmap_local_folio_def [abs_def] folio_nr_pages_def map_nth)
  then have "length (filter zero_page (folio_pages f)) =
      length (filter zero_page (map (kmap_local_folio f) [0..<folio_nr_pages f]))"
    by simp
  also have "\<dots> = length (filter (\<lambda>i. zero_page (kmap_local_folio f i)) [0..<folio_nr_pages f])"
    by (simp add: filter_map comp_def)
  finally show ?thesis by simp
qed

lemma thp_number_utilized_pages_Some:
  "folio_test_anon f \<Longrightarrow> folio_test_large f \<Longrightarrow>
   thp_number_utilized_pages P (Some f) =
     HPAGE_PMD_NR P - of_nat (length (filter zero_page (folio_pages f)))"
  by (simp add: thp_number_utilized_pages_def foldl_count_page zero_page_indices)

lemma utilized_value:
  assumes "folio_test_anon f" "folio_test_large f"
    and "int (folio_nr_pages f) \<le> sint (HPAGE_PMD_NR P)"
  shows "sint (thp_number_utilized_pages P (Some f)) =
           sint (HPAGE_PMD_NR P) - int (length (filter zero_page (folio_pages f)))"
proof -
  let ?z = "length (filter zero_page (folio_pages f))"
  let ?n = "sint (HPAGE_PMD_NR P)"
  have "int ?z \<le> int (length (folio_pages f))" by simp
  then have zn: "int ?z \<le> ?n"
    using assms(3) by (simp only: folio_nr_pages_def)
  have n: "?n < 2147483648" using sint_lt [of "HPAGE_PMD_NR P"] by simp
  have "sint (word_of_nat ?z :: c_int) = int ?z"
    using zn n by (simp add: signed_of_nat signed_take_bit_int_eq_self)
  then have "sint (HPAGE_PMD_NR P - of_nat ?z) = signed_take_bit 31 (?n - int ?z)"
    by (simp add: sint_word_ariths)
  also have "\<dots> = ?n - int ?z"
    using zn n by (simp add: signed_take_bit_int_eq_self)
  finally show ?thesis
    using assms by (simp add: thp_number_utilized_pages_Some)
qed

lemma utilized_range:
  assumes "folio_test_anon f" "folio_test_large f"
    and "int (folio_nr_pages f) \<le> sint (HPAGE_PMD_NR P)"
  shows "0 \<le> sint (thp_number_utilized_pages P (Some f)) \<and>
         sint (thp_number_utilized_pages P (Some f)) \<le> sint (HPAGE_PMD_NR P) \<and>
         thp_number_utilized_pages P (Some f) \<noteq> - 1"
proof -
  have "int (length (filter zero_page (folio_pages f))) \<le> int (length (folio_pages f))"
    by simp
  then have zn: "int (length (filter zero_page (folio_pages f))) \<le> sint (HPAGE_PMD_NR P)"
    using assms(3) by (simp only: folio_nr_pages_def)
  have v: "sint (thp_number_utilized_pages P (Some f)) =
      sint (HPAGE_PMD_NR P) - int (length (filter zero_page (folio_pages f)))"
    using assms by (rule utilized_value)
  then have lo: "0 \<le> sint (thp_number_utilized_pages P (Some f))" using zn by simp
  then have "thp_number_utilized_pages P (Some f) \<noteq> - 1" by auto
  with lo v show ?thesis by simp
qed

lemma utilized_not_applicable:
  "\<not> folio_test_anon f \<or> \<not> folio_test_large f \<Longrightarrow> thp_number_utilized_pages P (Some f) = - 1"
  by (auto simp add: thp_number_utilized_pages_def)

lemma zero_page_replicate: "zero_page (replicate n 0)"
  by (simp add: zero_page_def list_all_iff)

text \<open>
  C3, as the code has it: the classifier returns \<open>-1\<close> (not applicable) when the folio
  pointer is \<^verbatim>\<open>NULL\<close>, when the folio is not anonymous and when it is not large. Otherwise it
  starts from \<open>N\<close>, inspects each of the folio's \<^verbatim>\<open>folio_nr_pages\<close> pages, takes 1 off per zero
  page and returns \<open>N\<close> minus the number of zero pages, in \<^verbatim>\<open>int\<close> arithmetic. For a folio of
  at most \<open>N\<close> pages, a unit of exactly \<open>N\<close> pages among them, that value is in \<open>[0, N]\<close>, so
  that \<open>-1\<close> is returned in the three cases above only.
\<close>

theorem thp_number_utilized_pages_spec:
  "thp_number_utilized_pages P None = - 1 \<and>
   (\<not> folio_test_anon f \<or> \<not> folio_test_large f \<longrightarrow>
      thp_number_utilized_pages P (Some f) = - 1) \<and>
   (folio_test_anon f \<and> folio_test_large f \<longrightarrow>
      thp_number_utilized_pages P (Some f) =
        foldl (count_page f) (HPAGE_PMD_NR P) [0..<folio_nr_pages f] \<and>
      thp_number_utilized_pages P (Some f) =
        HPAGE_PMD_NR P - word_of_nat (length (filter zero_page (folio_pages f))) \<and>
      (int (folio_nr_pages f) \<le> sint (HPAGE_PMD_NR P) \<longrightarrow>
         sint (thp_number_utilized_pages P (Some f)) =
           sint (HPAGE_PMD_NR P) - int (length (filter zero_page (folio_pages f))) \<and>
         0 \<le> sint (thp_number_utilized_pages P (Some f)) \<and>
         sint (thp_number_utilized_pages P (Some f)) \<le> sint (HPAGE_PMD_NR P) \<and>
         thp_number_utilized_pages P (Some f) \<noteq> - 1))"
proof (intro conjI impI)
  show "thp_number_utilized_pages P None = - 1"
    by (simp add: thp_number_utilized_pages_def)
next
  assume "\<not> folio_test_anon f \<or> \<not> folio_test_large f"
  then show "thp_number_utilized_pages P (Some f) = - 1"
    by (rule utilized_not_applicable)
next
  assume a: "folio_test_anon f \<and> folio_test_large f"
  then show "thp_number_utilized_pages P (Some f) =
      foldl (count_page f) (HPAGE_PMD_NR P) [0..<folio_nr_pages f]"
    by (simp add: thp_number_utilized_pages_def)
  from a show "thp_number_utilized_pages P (Some f) =
      HPAGE_PMD_NR P - word_of_nat (length (filter zero_page (folio_pages f)))"
    by (simp add: thp_number_utilized_pages_Some)
next
  assume a: "folio_test_anon f \<and> folio_test_large f"
    and n: "int (folio_nr_pages f) \<le> sint (HPAGE_PMD_NR P)"
  from a have a': "folio_test_anon f" "folio_test_large f" by simp_all
  note r = utilized_range [OF a' n]
  show "sint (thp_number_utilized_pages P (Some f)) =
      sint (HPAGE_PMD_NR P) - int (length (filter zero_page (folio_pages f)))"
    using a' n by (rule utilized_value)
  show "0 \<le> sint (thp_number_utilized_pages P (Some f))" using r by blast
  show "sint (thp_number_utilized_pages P (Some f)) \<le> sint (HPAGE_PMD_NR P)" using r by blast
  show "thp_number_utilized_pages P (Some f) \<noteq> - 1" using r by blast
qed

theorem thp_number_utilized_pages_spec_witness:
  "folio_test_anon one_byte_thp \<and> folio_test_large one_byte_thp \<and>
   int (folio_nr_pages one_byte_thp) \<le> sint (HPAGE_PMD_NR x86_64) \<and>
   thp_number_utilized_pages x86_64 (Some one_byte_thp) \<noteq> - 1 \<and>
   sint (thp_number_utilized_pages x86_64 (Some one_byte_thp)) = 1"
proof -
  have h: "folio_test_anon one_byte_thp \<and> folio_test_large one_byte_thp"
    "int (folio_nr_pages one_byte_thp) \<le> sint (HPAGE_PMD_NR x86_64)"
    by (simp_all add: folio_nr_pages_def one_byte_thp_def x86_64_def)
  have z: "length (filter zero_page (folio_pages one_byte_thp)) = 511"
    by (simp add: one_byte_thp_def zero_page_replicate) (simp add: zero_page_def)
  have n: "sint (HPAGE_PMD_NR x86_64) = 512" by (simp add: x86_64_def)
  from thp_number_utilized_pages_spec [of x86_64 one_byte_thp] h
  have "sint (thp_number_utilized_pages x86_64 (Some one_byte_thp)) =
      sint (HPAGE_PMD_NR x86_64) - int (length (filter zero_page (folio_pages one_byte_thp)))"
    and "thp_number_utilized_pages x86_64 (Some one_byte_thp) \<noteq> - 1"
    by blast+
  with h show ?thesis
    unfolding z n by simp
qed

text \<open>
  Large anonymous folios of more than \<open>N = 512\<close> pages, all of them zero pages: with 513
  pages the classifier returns \<open>-1\<close>, the value it returns for a folio that is not
  applicable, and with 1024 pages it returns \<open>-512\<close>, outside \<open>[0, N]\<close>.
\<close>

theorem thp_number_utilized_pages_large_folio:
  "folio_test_anon (zero_folio 513) \<and> folio_test_large (zero_folio 513) \<and>
   thp_number_utilized_pages x86_64 (Some (zero_folio 513)) = - 1 \<and>
   folio_test_anon (zero_folio 1024) \<and> folio_test_large (zero_folio 1024) \<and>
   sint (thp_number_utilized_pages x86_64 (Some (zero_folio 1024))) = - 512"
proof -
  have z: "length (filter zero_page (folio_pages (zero_folio n))) = n" for n
    by (simp add: zero_folio_def zero_page_replicate)
  have a: "folio_test_anon (zero_folio n)" "folio_test_large (zero_folio n)" for n
    by (simp_all add: zero_folio_def)
  have v: "thp_number_utilized_pages x86_64 (Some (zero_folio n)) = 512 - word_of_nat n" for n
    using thp_number_utilized_pages_Some [OF a, of x86_64 n] by (simp add: z x86_64_def)
  show ?thesis
    by (simp add: a v)
qed
section \<open>Properties of one loop iteration\<close>

lemma step_pfn [simp]:
  "pfn (snd (thp_util_scan_step P M pfn_end s)) = pfn s + scast (HPAGE_PMD_NR P)"
  by (simp add: thp_util_scan_step_def Let_def split: option.split)

lemma step_scan_zone [simp]:
  "scan_zone (snd (thp_util_scan_step P M pfn_end s)) = scan_zone s"
  by (simp add: thp_util_scan_step_def Let_def split: option.split)

lemma step_times [simp]:
  "last_scan_time (snd (thp_util_scan_step P M pfn_end s)) = last_scan_time s"
  "last_scan_duration (snd (thp_util_scan_step P M pfn_end s)) = last_scan_duration s"
  by (simp_all add: thp_util_scan_step_def Let_def split: option.split)

lemma step_return_iff:
  "fst (thp_util_scan_step P M pfn_end s) \<longleftrightarrow> pfn_end \<le> current_frame s"
  by (simp add: thp_util_scan_step_def current_frame_def Let_def split: option.split)

lemma bucket_of_minus_one: "thp_utilization_bucket P (- 1) = - 1"
  by (simp add: thp_utilization_bucket_def word_sless_alt)

lemma step_skip_buckets:
  assumes "case pfn_to_online_page M (current_frame s) of
             None \<Rightarrow> True
           | Some page \<Rightarrow> thp_utilization_bucket P (thp_number_utilized_pages P (page_folio M page)) <s 0"
  shows "buckets (snd (thp_util_scan_step P M pfn_end s)) = buckets s"
  using assms
  by (simp add: thp_util_scan_step_def current_frame_def Let_def split: option.splits)

text \<open>
  C7: a loop iteration that finds no online page at the cursor, or whose unit the classifier
  rejects (\<open>-1\<close>), or whose count the bucketizer rejects (\<open>-1\<close>), leaves every bucket of
  the accumulator as it was, and still advances the cursor by \<open>N\<close> frames.
\<close>

theorem thp_util_scan_step_skip:
  assumes "case pfn_to_online_page M (current_frame s) of
             None \<Rightarrow> True
           | Some page \<Rightarrow>
               thp_number_utilized_pages P (page_folio M page) = - 1 \<or>
               thp_utilization_bucket P (thp_number_utilized_pages P (page_folio M page)) = - 1"
  shows "buckets (snd (thp_util_scan_step P M pfn_end s)) = buckets s \<and>
         pfn (snd (thp_util_scan_step P M pfn_end s)) = pfn s + scast (HPAGE_PMD_NR P)"
proof -
  have "case pfn_to_online_page M (current_frame s) of
             None \<Rightarrow> True
           | Some page \<Rightarrow> thp_utilization_bucket P (thp_number_utilized_pages P (page_folio M page)) <s 0"
    using assms by (auto simp add: bucket_of_minus_one word_sless_alt split: option.splits)
  then show ?thesis by (simp add: step_skip_buckets)
qed

theorem thp_util_scan_step_skip_witness:
  "(case pfn_to_online_page two_zones (current_frame (zero_scan_info\<lparr>pfn := 512\<rparr>)) of
      None \<Rightarrow> True
    | Some page \<Rightarrow>
        thp_number_utilized_pages x86_64 (page_folio two_zones page) = - 1 \<or>
        thp_utilization_bucket x86_64 (thp_number_utilized_pages x86_64 (page_folio two_zones page)) = - 1) \<and>
   buckets (snd (thp_util_scan_step x86_64 two_zones 1024 (zero_scan_info\<lparr>pfn := 512\<rparr>))) = zero_buckets \<and>
   pfn (snd (thp_util_scan_step x86_64 two_zones 1024 (zero_scan_info\<lparr>pfn := 512\<rparr>))) = 1024"
proof -
  have h: "case pfn_to_online_page two_zones (current_frame (zero_scan_info\<lparr>pfn := 512\<rparr>)) of
      None \<Rightarrow> True
    | Some page \<Rightarrow>
        thp_number_utilized_pages x86_64 (page_folio two_zones page) = - 1 \<or>
        thp_utilization_bucket x86_64 (thp_number_utilized_pages x86_64 (page_folio two_zones page)) = - 1"
    by (simp add: two_zones_def current_frame_def)
  show ?thesis
    using h thp_util_scan_step_skip [OF h, of 1024]
    by (simp add: zero_scan_info_def x86_64_def)
qed

section \<open>Properties of the zone advance\<close>

lemma next_zone_wrap:
  assumes "scan_zone (thp_scan g) = Some z" "next_zone M z = None"
  shows "thp_scan_next_zone P M now g =
     Some \<lparr>thp_scan_debugfs = (thp_scan_debugfs g)
              \<lparr>buckets := buckets (thp_scan g),
               last_scan_duration := timespec64_sub now (last_scan_time (thp_scan_debugfs g)),
               last_scan_time := now\<rparr>,
           thp_scan = (thp_scan g)
              \<lparr>buckets := zero_buckets, scan_zone := Some (first_zone M),
               pfn := (zone_start_pfn (first_zone M) + scast (HPAGE_PMD_NR P) - 1)
                        AND NOT (HPAGE_PMD_SIZE P - 1)\<rparr>\<rparr>"
  using assms by (simp add: thp_scan_next_zone_def Let_def)

lemma next_zone_advance:
  assumes "scan_zone (thp_scan g) = Some z" "next_zone M z = Some z'"
  shows "thp_scan_next_zone P M now g =
     Some (g\<lparr>thp_scan := (thp_scan g)
              \<lparr>scan_zone := Some z',
               pfn := (zone_start_pfn z' + scast (HPAGE_PMD_NR P) - 1)
                        AND NOT (HPAGE_PMD_SIZE P - 1)\<rparr>\<rparr>)"
  using assms by (simp add: thp_scan_next_zone_def Let_def)

lemma timespec64_sub_total:
  "tv_sec (timespec64_sub a b) * NSEC_PER_SEC + tv_nsec (timespec64_sub a b) =
     (tv_sec a * NSEC_PER_SEC + tv_nsec a) - (tv_sec b * NSEC_PER_SEC + tv_nsec b)"
  by (simp add: timespec64_sub_def Let_def algebra_simps NSEC_PER_SEC_def)

lemma show_counts:
  "n < 10 \<Longrightarrow>
   shown_thps (utilized (thp_utilization_show P g) ! n) = nr_thps (buckets (thp_scan_debugfs g) ! n) \<and>
   shown_zero_pages (utilized (thp_utilization_show P g) ! n) =
     nr_zero_pages (buckets (thp_scan_debugfs g) ! n)"
  by (simp add: thp_utilization_show_def show_line_def Let_def THP_UTIL_BUCKET_NR_def)

text \<open>
  C5: when the zone after the current one is \<^verbatim>\<open>NULL\<close> (the pass is complete and the cursor
  wraps to the first zone of the first node), \<^verbatim>\<open>thp_scan_next_zone\<close> sets the published
  duration to the clock minus the previous published scan time, sets the published scan time
  to the clock, copies the accumulator's buckets into the published snapshot and zeroes the
  accumulator; a read of the snapshot then shows the counters of the pass just completed.
\<close>

theorem thp_scan_next_zone_publish:
  assumes "scan_zone (thp_scan g) = Some z" "next_zone M z = None"
  shows "\<exists>g'. thp_scan_next_zone P M now g = Some g' \<and>
           scan_zone (thp_scan g') = Some (first_zone M) \<and>
           last_scan_duration (thp_scan_debugfs g') =
             timespec64_sub now (last_scan_time (thp_scan_debugfs g)) \<and>
           last_scan_time (thp_scan_debugfs g') = now \<and>
           buckets (thp_scan_debugfs g') = buckets (thp_scan g) \<and>
           buckets (thp_scan g') = zero_buckets \<and>
           (\<forall>n < 10.
              shown_thps (utilized (thp_utilization_show P g') ! n) =
                nr_thps (buckets (thp_scan g) ! n) \<and>
              shown_zero_pages (utilized (thp_utilization_show P g') ! n) =
                nr_zero_pages (buckets (thp_scan g) ! n))"
  by (simp add: next_zone_wrap [OF assms] show_counts)

theorem thp_scan_next_zone_publish_witness:
  "scan_zone (thp_scan pass_done) = Some zone_B \<and> next_zone two_zones zone_B = None \<and>
   (\<exists>g'. thp_scan_next_zone x86_64 two_zones noon pass_done = Some g' \<and>
      scan_zone (thp_scan g') = Some zone_A \<and>
      last_scan_duration (thp_scan_debugfs g') = noon \<and>
      last_scan_time (thp_scan_debugfs g') = noon \<and>
      buckets (thp_scan_debugfs g') = zero_buckets[0 := \<lparr>nr_thps = 1, nr_zero_pages = 511\<rparr>] \<and>
      buckets (thp_scan g') = zero_buckets \<and>
      shown_thps (utilized (thp_utilization_show x86_64 g') ! 0) = 1 \<and>
      shown_zero_pages (utilized (thp_utilization_show x86_64 g') ! 0) = 511)"
proof -
  have h: "scan_zone (thp_scan pass_done) = Some zone_B" "next_zone two_zones zone_B = None"
    by (simp_all add: pass_done_def two_zones_def zone_B_def)
  have t: "timespec64_sub noon (last_scan_time (thp_scan_debugfs pass_done)) = noon"
    by (simp add: timespec64_sub_def pass_done_def zero_scan_info_def noon_def NSEC_PER_SEC_def)
  have b: "buckets (thp_scan pass_done) = zero_buckets[0 := \<lparr>nr_thps = 1, nr_zero_pages = 511\<rparr>]"
    "first_zone two_zones = zone_A"
    by (simp_all add: pass_done_def two_zones_def)
  have z: "zero_buckets ! 0 = zero_bucket" "0 < length zero_buckets"
    by (simp_all add: zero_buckets_def THP_UTIL_BUCKET_NR_def)
  from thp_scan_next_zone_publish [OF h, of x86_64 noon]
  show ?thesis
    unfolding t b using h z by fastforce
qed

text \<open>
  C2: the claim has the cursor enter a zone at the zone's start frame rounded up to a
  multiple of \<open>N\<close>. The code adds \<open>N - 1\<close> and then masks with
  \<^verbatim>\<open>~(HPAGE_PMD_SIZE - 1)\<close>, the huge page's size in bytes, where the round-up needs
  \<^verbatim>\<open>~(HPAGE_PMD_NR - 1)\<close>. On x86-64, leaving zone DMA for zone DMA32, whose start frame
  4096 is a multiple of \<open>N = 512\<close>, the cursor is set to frame 0.
\<close>

theorem thp_scan_next_zone_cursor_x86_64:
  "thp_scan_next_zone x86_64 x86_zones noon
     (initial_globals\<lparr>thp_scan := zero_scan_info\<lparr>scan_zone := Some zone_DMA, pfn := 4608\<rparr>\<rparr>) =
   Some (initial_globals\<lparr>thp_scan := zero_scan_info\<lparr>scan_zone := Some zone_DMA32, pfn := 0\<rparr>\<rparr>) \<and>
   zone_start_pfn zone_DMA32 = 4096"
  by (simp add: thp_scan_next_zone_def x86_zones_def zone_DMA_def zone_DMA32_def x86_64_def
        initial_globals_def zero_scan_info_def Let_def)

section \<open>Properties of the scan loop and of a firing\<close>

lemma after_steps_0 [simp]: "after_steps P M e 0 s = s"
  by (simp add: after_steps_def)

lemma after_steps_Suc:
  "after_steps P M e (Suc k) s = after_steps P M e k (snd (thp_util_scan_step P M e s))"
  unfolding after_steps_def funpow_Suc_right by simp

lemma after_steps_Suc':
  "after_steps P M e (Suc k) s = snd (thp_util_scan_step P M e (after_steps P M e k s))"
  by (simp add: after_steps_def)

lemma after_steps_pfn:
  "pfn (after_steps P M e k s) = pfn s + of_nat k * scast (HPAGE_PMD_NR P)"
  by (induction k) (simp_all add: after_steps_Suc' algebra_simps)

lemma after_steps_scan_zone [simp]:
  "scan_zone (after_steps P M e k s) = scan_zone s"
  by (induction k) (simp_all add: after_steps_Suc')

lemma scan_from_char:
  assumes "thp_util_scan_from P M e i s = (j, s')" "i \<le> THP_UTIL_SCAN_SIZE"
  shows "i \<le> j \<and> j \<le> THP_UTIL_SCAN_SIZE \<and>
         (\<forall>k < j - i. \<not> fst (thp_util_scan_step P M e (after_steps P M e k s))) \<and>
         (if j < THP_UTIL_SCAN_SIZE
          then fst (thp_util_scan_step P M e (after_steps P M e (j - i) s)) \<and>
               s' = after_steps P M e (Suc (j - i)) s
          else s' = after_steps P M e (j - i) s)"
  using assms
proof (induction P M e i s rule: thp_util_scan_from.induct)
  case (1 P M e i s)
  show ?case
  proof (cases "i < THP_UTIL_SCAN_SIZE")
    case False
    with "1.prems" show ?thesis
      by (simp add: thp_util_scan_from.simps)
  next
    case True
    obtain r s1 where st: "thp_util_scan_step P M e s = (r, s1)"
      by (cases "thp_util_scan_step P M e s")
    show ?thesis
    proof (cases r)
      case True
      with st \<open>i < THP_UTIL_SCAN_SIZE\<close> "1.prems" show ?thesis
        by (simp add: thp_util_scan_from.simps after_steps_Suc)
    next
      case False
      with st \<open>i < THP_UTIL_SCAN_SIZE\<close> "1.prems"
      have rec: "thp_util_scan_from P M e (Suc i) s1 = (j, s')"
        by (simp add: thp_util_scan_from.simps)
      have ih: "Suc i \<le> j \<and> j \<le> THP_UTIL_SCAN_SIZE \<and>
         (\<forall>k < j - Suc i. \<not> fst (thp_util_scan_step P M e (after_steps P M e k s1))) \<and>
         (if j < THP_UTIL_SCAN_SIZE
          then fst (thp_util_scan_step P M e (after_steps P M e (j - Suc i) s1)) \<and>
               s' = after_steps P M e (Suc (j - Suc i)) s1
          else s' = after_steps P M e (j - Suc i) s1)"
        using "1.IH" [OF \<open>i < THP_UTIL_SCAN_SIZE\<close> st [symmetric] _ rec] False \<open>i < THP_UTIL_SCAN_SIZE\<close>
        by simp
      have s1: "s1 = snd (thp_util_scan_step P M e s)" using st by simp
      have shift: "\<And>k. after_steps P M e k s1 = after_steps P M e (Suc k) s"
        by (simp add: after_steps_Suc s1)
      from ih have "Suc i \<le> j" by blast
      then have ji: "j - i = Suc (j - Suc i)" by arith
      have "\<forall>k < j - i. \<not> fst (thp_util_scan_step P M e (after_steps P M e k s))"
      proof (intro allI impI)
        fix k assume k: "k < j - i"
        show "\<not> fst (thp_util_scan_step P M e (after_steps P M e k s))"
        proof (cases k)
          case 0
          then show ?thesis using st False by simp
        next
          case (Suc k')
          with k ji have "k' < j - Suc i" by simp
          with ih have "\<not> fst (thp_util_scan_step P M e (after_steps P M e k' s1))" by blast
          then show ?thesis by (simp add: shift Suc)
        qed
      qed
      moreover have "if j < THP_UTIL_SCAN_SIZE
          then fst (thp_util_scan_step P M e (after_steps P M e (j - i) s)) \<and>
               s' = after_steps P M e (Suc (j - i)) s
          else s' = after_steps P M e (j - i) s"
        using ih unfolding shift ji by simp
      moreover have "i \<le> j" "j \<le> THP_UTIL_SCAN_SIZE" using ih by simp_all
      ultimately show ?thesis by simp
    qed
  qed
qed


lemma scan_char:
  "fst (thp_util_scan P M e s) \<le> THP_UTIL_SCAN_SIZE \<and>
   (\<forall>k < fst (thp_util_scan P M e s). current_frame (after_steps P M e k s) < e) \<and>
   (fst (thp_util_scan P M e s) < THP_UTIL_SCAN_SIZE \<longrightarrow>
      e \<le> current_frame (after_steps P M e (fst (thp_util_scan P M e s)) s)) \<and>
   snd (thp_util_scan P M e s) =
     after_steps P M e
       (if fst (thp_util_scan P M e s) < THP_UTIL_SCAN_SIZE
        then Suc (fst (thp_util_scan P M e s)) else fst (thp_util_scan P M e s)) s"
proof -
  obtain j s' where r: "thp_util_scan_from P M e 0 s = (j, s')"
    by (cases "thp_util_scan_from P M e 0 s")
  from scan_from_char [OF r] show ?thesis
    by (auto simp add: thp_util_scan_def r step_return_iff not_le split: if_splits)
qed

lemma scan_scan_zone [simp]: "scan_zone (snd (thp_util_scan P M e s)) = scan_zone s"
  using scan_char [of P M e s] by simp

lemma scan_zone_same: "scan_zone s = Some a \<Longrightarrow> s\<lparr>scan_zone := Some a\<rparr> = s"
  by (cases s) simp

lemma workfn_scan_branch:
  assumes "managed_zone (firing_zone M g)"
    and "pfn (thp_scan g) < zone_end_pfn (firing_zone M g)"
  shows "thp_utilization_workfn P M now g =
     Some (g\<lparr>thp_scan := snd (thp_util_scan P M (zone_end_pfn (firing_zone M g))
                                ((thp_scan g)\<lparr>scan_zone := Some (firing_zone M g)\<rparr>))\<rparr>)"
  using assms
  by (cases "scan_zone (thp_scan g)")
     (simp_all add: thp_utilization_workfn_def firing_zone_def Let_def not_le [symmetric]
        scan_zone_same)

lemma workfn_next_zone_branch:
  assumes "\<not> (managed_zone (firing_zone M g) \<and>
              pfn (thp_scan g) < zone_end_pfn (firing_zone M g))"
  shows "thp_utilization_workfn P M now g =
     thp_scan_next_zone P M now (g\<lparr>thp_scan := (thp_scan g)\<lparr>scan_zone := Some (firing_zone M g)\<rparr>\<rparr>)"
  using assms
  by (cases "scan_zone (thp_scan g)")
     (auto simp add: thp_utilization_workfn_def firing_zone_def Let_def not_less scan_zone_same)

text \<open>
  C1, as the code has it: a firing runs at most \<open>Q = 256\<close> iterations of the scan loop. A
  firing whose zone is managed and whose cursor \<^verbatim>\<open>thp_scan.pfn\<close> is before the zone's end frame
  only scans: the zone pointer and the published snapshot stay as they are, every iteration
  that ran to its end worked on a frame number \<^verbatim>\<open>current_pfn\<close> (the cursor's low 32 bits read
  as an \<^verbatim>\<open>int\<close>) before the zone's end frame, and the loop ends before the quantum is used up
  exactly when \<^verbatim>\<open>current_pfn\<close> has reached the zone's end frame within the quantum, whether or
  not that zone is the last of the pass. Any other firing runs no iteration: it is the zone
  advance alone.
\<close>

theorem thp_utilization_workfn_quantum:
  "let z = firing_zone M g;
       s = (thp_scan g)\<lparr>scan_zone := Some z\<rparr>;
       r = thp_util_scan P M (zone_end_pfn z) s
   in (managed_zone z \<and> pfn (thp_scan g) < zone_end_pfn z \<longrightarrow>
         thp_utilization_workfn P M now g = Some (g\<lparr>thp_scan := snd r\<rparr>) \<and>
         fst r \<le> THP_UTIL_SCAN_SIZE \<and>
         scan_zone (snd r) = Some z \<and>
         (\<forall>k < fst r. current_frame (after_steps P M (zone_end_pfn z) k s) < zone_end_pfn z) \<and>
         (fst r < THP_UTIL_SCAN_SIZE \<longrightarrow>
            zone_end_pfn z \<le> current_frame (after_steps P M (zone_end_pfn z) (fst r) s)) \<and>
         snd r = after_steps P M (zone_end_pfn z)
                   (if fst r < THP_UTIL_SCAN_SIZE then Suc (fst r) else fst r) s \<and>
         (fst r < THP_UTIL_SCAN_SIZE \<longleftrightarrow>
            (\<exists>k < THP_UTIL_SCAN_SIZE.
               zone_end_pfn z \<le> current_frame (after_steps P M (zone_end_pfn z) k s))) \<and>
         thp_scan_debugfs (g\<lparr>thp_scan := snd r\<rparr>) = thp_scan_debugfs g) \<and>
      (\<not> (managed_zone z \<and> pfn (thp_scan g) < zone_end_pfn z) \<longrightarrow>
         thp_utilization_workfn P M now g = thp_scan_next_zone P M now (g\<lparr>thp_scan := s\<rparr>))"
proof -
  let ?z = "firing_zone M g"
  let ?s = "(thp_scan g)\<lparr>scan_zone := Some ?z\<rparr>"
  note c = scan_char [of P M "zone_end_pfn ?z" ?s]
  show ?thesis
    unfolding Let_def
  proof (intro conjI impI)
    assume a: "managed_zone ?z \<and> pfn (thp_scan g) < zone_end_pfn ?z"
    then show "thp_utilization_workfn P M now g =
        Some (g\<lparr>thp_scan := snd (thp_util_scan P M (zone_end_pfn ?z) ?s)\<rparr>)"
      by (simp add: workfn_scan_branch)
    show "fst (thp_util_scan P M (zone_end_pfn ?z) ?s) \<le> THP_UTIL_SCAN_SIZE"
      using c by blast
    show "scan_zone (snd (thp_util_scan P M (zone_end_pfn ?z) ?s)) = Some ?z"
      by simp
    show "\<forall>k < fst (thp_util_scan P M (zone_end_pfn ?z) ?s).
        current_frame (after_steps P M (zone_end_pfn ?z) k ?s) < zone_end_pfn ?z"
      using c by blast
    show "snd (thp_util_scan P M (zone_end_pfn ?z) ?s) =
        after_steps P M (zone_end_pfn ?z)
          (if fst (thp_util_scan P M (zone_end_pfn ?z) ?s) < THP_UTIL_SCAN_SIZE
           then Suc (fst (thp_util_scan P M (zone_end_pfn ?z) ?s))
           else fst (thp_util_scan P M (zone_end_pfn ?z) ?s)) ?s"
      using c by blast
    show "fst (thp_util_scan P M (zone_end_pfn ?z) ?s) < THP_UTIL_SCAN_SIZE \<longleftrightarrow>
        (\<exists>k < THP_UTIL_SCAN_SIZE.
           zone_end_pfn ?z \<le> current_frame (after_steps P M (zone_end_pfn ?z) k ?s))"
    proof
      assume "fst (thp_util_scan P M (zone_end_pfn ?z) ?s) < THP_UTIL_SCAN_SIZE"
      with c show "\<exists>k < THP_UTIL_SCAN_SIZE.
          zone_end_pfn ?z \<le> current_frame (after_steps P M (zone_end_pfn ?z) k ?s)"
        by blast
    next
      assume "\<exists>k < THP_UTIL_SCAN_SIZE.
          zone_end_pfn ?z \<le> current_frame (after_steps P M (zone_end_pfn ?z) k ?s)"
      then obtain k where k: "k < THP_UTIL_SCAN_SIZE"
        "zone_end_pfn ?z \<le> current_frame (after_steps P M (zone_end_pfn ?z) k ?s)"
        by blast
      show "fst (thp_util_scan P M (zone_end_pfn ?z) ?s) < THP_UTIL_SCAN_SIZE"
      proof (rule ccontr)
        assume "\<not> fst (thp_util_scan P M (zone_end_pfn ?z) ?s) < THP_UTIL_SCAN_SIZE"
        with k(1) have "k < fst (thp_util_scan P M (zone_end_pfn ?z) ?s)" by simp
        with c have "current_frame (after_steps P M (zone_end_pfn ?z) k ?s) < zone_end_pfn ?z"
          by blast
        with k(2) show False by simp
      qed
    qed
    show "thp_scan_debugfs (g\<lparr>thp_scan := snd (thp_util_scan P M (zone_end_pfn ?z) ?s)\<rparr>) =
        thp_scan_debugfs g"
      by simp
  next
    assume "fst (thp_util_scan P M (zone_end_pfn ?z) ?s) < THP_UTIL_SCAN_SIZE"
    then show "zone_end_pfn ?z \<le>
        current_frame (after_steps P M (zone_end_pfn ?z)
          (fst (thp_util_scan P M (zone_end_pfn ?z) ?s)) ?s)"
      using c by blast
  next
    assume "\<not> (managed_zone ?z \<and> pfn (thp_scan g) < zone_end_pfn ?z)"
    then show "thp_utilization_workfn P M now g = thp_scan_next_zone P M now (g\<lparr>thp_scan := ?s\<rparr>)"
      by (rule workfn_next_zone_branch)
  qed
qed

lemma utilized_one_byte_thp: "thp_number_utilized_pages x86_64 (Some one_byte_thp) = 1"
proof -
  have "length (filter zero_page (folio_pages one_byte_thp)) = 511"
    by (simp add: one_byte_thp_def zero_page_replicate) (simp add: zero_page_def)
  then show ?thesis
    by (simp add: thp_number_utilized_pages_Some one_byte_thp_def x86_64_def)
qed

lemma zero_buckets_unfold:
  "zero_buckets = [zero_bucket, zero_bucket, zero_bucket, zero_bucket, zero_bucket,
                   zero_bucket, zero_bucket, zero_bucket, zero_bucket, zero_bucket]"
  by (simp add: zero_buckets_def THP_UTIL_BUCKET_NR_def eval_nat_numeral)

lemma two_zones_first_scan:
  "thp_util_scan x86_64 two_zones 512 (zero_scan_info\<lparr>scan_zone := Some zone_A\<rparr>) =
     (1, zero_scan_info\<lparr>buckets := zero_buckets[0 := \<lparr>nr_thps = 1, nr_zero_pages = 511\<rparr>],
                        scan_zone := Some zone_A, pfn := 1024\<rparr>)"
proof -
  have b: "thp_utilization_bucket x86_64 1 = 0"
    by (simp add: thp_utilization_bucket_def x86_64_def int_div_def THP_UTIL_BUCKET_NR_def
        word_sless_alt signed_divide_int_def Let_def)
  have s0: "thp_util_scan_step x86_64 two_zones 512 (zero_scan_info\<lparr>scan_zone := Some zone_A\<rparr>) =
      (False, zero_scan_info\<lparr>buckets := zero_buckets[0 := \<lparr>nr_thps = 1, nr_zero_pages = 511\<rparr>],
                        scan_zone := Some zone_A, pfn := 512\<rparr>)"
    by (simp add: thp_util_scan_step_def Let_def zero_scan_info_def two_zones_def
        utilized_one_byte_thp b count_thp_def zero_buckets_unfold zero_bucket_def word_sless_alt)
       (simp add: x86_64_def)
  have s1: "thp_util_scan_step x86_64 two_zones 512
      (zero_scan_info\<lparr>buckets := zero_buckets[0 := \<lparr>nr_thps = 1, nr_zero_pages = 511\<rparr>],
                        scan_zone := Some zone_A, pfn := 512\<rparr>) =
      (True, zero_scan_info\<lparr>buckets := zero_buckets[0 := \<lparr>nr_thps = 1, nr_zero_pages = 511\<rparr>],
                        scan_zone := Some zone_A, pfn := 1024\<rparr>)"
    by (simp add: thp_util_scan_step_def Let_def zero_scan_info_def x86_64_def)
  show ?thesis
    by (simp add: thp_util_scan_def thp_util_scan_from.simps [of _ _ _ 0]
        thp_util_scan_from.simps [of _ _ _ "Suc 0"] s0 s1 THP_UTIL_SCAN_SIZE_def)
qed

lemma two_zones_first_firing:
  "thp_utilization_workfn x86_64 two_zones noon initial_globals =
     Some \<lparr>thp_scan_debugfs = zero_scan_info,
           thp_scan = zero_scan_info
             \<lparr>buckets := zero_buckets[0 := \<lparr>nr_thps = 1, nr_zero_pages = 511\<rparr>],
              scan_zone := Some zone_A, pfn := 1024\<rparr>\<rparr>"
proof -
  have z: "firing_zone two_zones initial_globals = zone_A"
    by (simp add: firing_zone_def initial_globals_def zero_scan_info_def two_zones_def)
  have e: "zone_end_pfn zone_A = 512" "thp_scan initial_globals = zero_scan_info"
    by (simp_all add: zone_A_def initial_globals_def)
  have "managed_zone (firing_zone two_zones initial_globals)"
    "pfn (thp_scan initial_globals) < zone_end_pfn (firing_zone two_zones initial_globals)"
    unfolding z by (simp_all add: zone_A_def initial_globals_def zero_scan_info_def)
  from workfn_scan_branch [OF this, of x86_64 noon]
  have w: "thp_utilization_workfn x86_64 two_zones noon initial_globals =
     Some (initial_globals\<lparr>thp_scan :=
       snd (thp_util_scan x86_64 two_zones 512 (zero_scan_info\<lparr>scan_zone := Some zone_A\<rparr>))\<rparr>)"
    unfolding z e .
  show ?thesis
    unfolding w two_zones_first_scan
    by (simp add: initial_globals_def)
qed

text \<open>
  The first firing on two zones of one huge page each: it runs one iteration of 256 and
  stops at the end of the first zone. The pass is not complete (a second zone follows, nothing
  is published), and the firing does not go on into the second zone.
\<close>

theorem thp_utilization_workfn_stops_in_zone:
  "thp_utilization_workfn x86_64 two_zones noon initial_globals =
     Some \<lparr>thp_scan_debugfs = zero_scan_info,
           thp_scan = zero_scan_info
             \<lparr>buckets := zero_buckets[0 := \<lparr>nr_thps = 1, nr_zero_pages = 511\<rparr>],
              scan_zone := Some zone_A, pfn := 1024\<rparr>\<rparr> \<and>
   fst (thp_util_scan x86_64 two_zones 512 (zero_scan_info\<lparr>scan_zone := Some zone_A\<rparr>)) = 1 \<and>
   1 < THP_UTIL_SCAN_SIZE \<and>
   next_zone two_zones zone_A = Some zone_B"
  by (simp add: two_zones_first_firing two_zones_first_scan THP_UTIL_SCAN_SIZE_def)
     (simp add: two_zones_def zone_A_def)

theorem thp_utilization_workfn_quantum_witness:
  "managed_zone (firing_zone two_zones initial_globals) \<and>
   pfn (thp_scan initial_globals) < zone_end_pfn (firing_zone two_zones initial_globals) \<and>
   thp_utilization_workfn x86_64 two_zones noon initial_globals =
     Some (initial_globals\<lparr>thp_scan :=
       snd (thp_util_scan x86_64 two_zones 512 (zero_scan_info\<lparr>scan_zone := Some zone_A\<rparr>))\<rparr>) \<and>
   fst (thp_util_scan x86_64 two_zones 512 (zero_scan_info\<lparr>scan_zone := Some zone_A\<rparr>))
     \<le> THP_UTIL_SCAN_SIZE \<and>
   512 \<le> current_frame (after_steps x86_64 two_zones 512 1
                           (zero_scan_info\<lparr>scan_zone := Some zone_A\<rparr>))"
proof -
  have z: "firing_zone two_zones initial_globals = zone_A"
    by (simp add: firing_zone_def initial_globals_def zero_scan_info_def two_zones_def)
  have h: "managed_zone (firing_zone two_zones initial_globals)"
    "pfn (thp_scan initial_globals) < zone_end_pfn (firing_zone two_zones initial_globals)"
    unfolding z by (simp_all add: zone_A_def initial_globals_def zero_scan_info_def)
  have e: "zone_end_pfn zone_A = 512" "thp_scan initial_globals = zero_scan_info"
    by (simp_all add: zone_A_def initial_globals_def)
  have f: "fst (thp_util_scan x86_64 two_zones 512 (zero_scan_info\<lparr>scan_zone := Some zone_A\<rparr>)) = 1"
    by (simp add: two_zones_first_scan)
  from thp_utilization_workfn_quantum [of two_zones initial_globals x86_64 noon] h
  have "thp_utilization_workfn x86_64 two_zones noon initial_globals =
     Some (initial_globals\<lparr>thp_scan :=
       snd (thp_util_scan x86_64 two_zones 512 (zero_scan_info\<lparr>scan_zone := Some zone_A\<rparr>))\<rparr>)"
    and "fst (thp_util_scan x86_64 two_zones 512 (zero_scan_info\<lparr>scan_zone := Some zone_A\<rparr>))
      \<le> THP_UTIL_SCAN_SIZE"
    and "fst (thp_util_scan x86_64 two_zones 512 (zero_scan_info\<lparr>scan_zone := Some zone_A\<rparr>))
        < THP_UTIL_SCAN_SIZE \<longrightarrow>
      512 \<le> current_frame (after_steps x86_64 two_zones 512
        (fst (thp_util_scan x86_64 two_zones 512 (zero_scan_info\<lparr>scan_zone := Some zone_A\<rparr>)))
        (zero_scan_info\<lparr>scan_zone := Some zone_A\<rparr>))"
    unfolding Let_def z e by blast+
  with h show ?thesis
    by (simp add: f THP_UTIL_SCAN_SIZE_def)
qed

section \<open>The cursor as an \<^verbatim>\<open>int\<close>\<close>

lemma current_frame_uint:
  "uint (current_frame s) = take_bit 64 (signed_take_bit 31 (uint (pfn s)))"
  by (simp add: current_frame_def scast_eq uint_word_of_int_eq signed_ucast_eq)

lemma signed_cursor_low: "0 \<le> k \<Longrightarrow> k < 2147483648 \<Longrightarrow> take_bit 64 (signed_take_bit 31 (k::int)) = k"
  by (simp add: signed_take_bit_int_eq_self take_bit_int_eq_self)

lemma signed_cursor_high:
  assumes "2147483648 \<le> k" "k < 4294967296"
  shows "take_bit 64 (signed_take_bit 31 (k::int)) = k + 18446744069414584320"
proof -
  have "signed_take_bit 31 k = take_bit 32 (k + 2147483648) - 2147483648"
    by (simp add: signed_take_bit_eq_take_bit_shift)
  also have "take_bit 32 (k + 2147483648) = k + 2147483648 - 4294967296"
  proof -
    have e: "k + 2147483648 = (k - 2147483648) + 4294967296" by simp
    have "(k + 2147483648) mod 4294967296 = (k - 2147483648) mod 4294967296"
      by (subst e) (simp only: mod_add_self2)
    also have "\<dots> = k - 2147483648"
      using assms by (intro mod_pos_pos_trivial) simp_all
    finally show ?thesis by (simp add: take_bit_eq_mod)
  qed
  finally have s: "signed_take_bit 31 k = k - 4294967296" by simp
  have "take_bit 64 (k - 4294967296) = k - 4294967296 + 18446744073709551616"
  proof -
    have e: "k - 4294967296 = (k + 18446744069414584320) - 18446744073709551616" by simp
    have "(k - 4294967296) mod 18446744073709551616 =
        (k + 18446744069414584320) mod 18446744073709551616"
      by (subst e) (simp only: minus_mod_self2)
    also have "\<dots> = k + 18446744069414584320"
      using assms by (intro mod_pos_pos_trivial) simp_all
    finally show ?thesis by (simp add: take_bit_eq_mod)
  qed
  with s show ?thesis by simp
qed

lemma current_frame_low:
  assumes "uint (pfn s) < 2147483648"
  shows "current_frame s = pfn s"
proof -
  have "uint (current_frame s) = uint (pfn s)"
    using assms by (simp add: current_frame_uint signed_cursor_low)
  then show ?thesis by (simp add: word_uint_eq_iff)
qed

lemma current_frame_high:
  assumes "2147483648 \<le> uint (pfn s)" "uint (pfn s) < 4294967296"
  shows "uint (current_frame s) = uint (pfn s) + 18446744069414584320"
  using assms by (simp add: current_frame_uint signed_cursor_high)

lemma step_wide_iff:
  assumes "uint pfn_end \<le> 2147483648" "uint (pfn s) < 4294967296"
  shows "thp_util_scan_step P M pfn_end s = thp_util_scan_step_wide P M pfn_end s"
proof (cases "uint (pfn s) < 2147483648")
  case True
  then have "current_frame s = pfn s" by (rule current_frame_low)
  then have "(scast (ucast (pfn s) :: c_int) :: c_ulong) = pfn s"
    by (simp add: current_frame_def)
  then show ?thesis
    by (simp add: thp_util_scan_step_def thp_util_scan_step_wide_def Let_def)
next
  case False
  then have h: "2147483648 \<le> uint (pfn s)" by simp
  have "uint (current_frame s) = uint (pfn s) + 18446744069414584320"
    using h assms(2) by (rule current_frame_high)
  then have "pfn_end \<le> current_frame s"
    using assms h by (simp add: word_le_def)
  then have n: "pfn_end \<le> (scast (ucast (pfn s) :: c_int) :: c_ulong)"
    by (simp add: current_frame_def)
  have w: "pfn_end \<le> pfn s"
    using assms h by (simp add: word_le_def)
  show ?thesis
    using n w by (simp add: thp_util_scan_step_def thp_util_scan_step_wide_def)
qed

lemma step_wide_return_iff:
  "fst (thp_util_scan_step_wide P M pfn_end s) \<longleftrightarrow> pfn_end \<le> pfn s"
  by (simp add: thp_util_scan_step_wide_def Let_def split: option.split)

lemma step_wide_pfn:
  "pfn (snd (thp_util_scan_step_wide P M pfn_end s)) = pfn s + scast (HPAGE_PMD_NR P)"
  by (simp add: thp_util_scan_step_wide_def Let_def split: option.split)

lemma uint_scast_HPAGE_PMD_NR:
  assumes "0 \<le> sint (HPAGE_PMD_NR P)"
  shows "uint (scast (HPAGE_PMD_NR P) :: c_ulong) = sint (HPAGE_PMD_NR P)"
proof -
  have "sint (HPAGE_PMD_NR P) < 2 ^ 31"
    using sint_lt [of "HPAGE_PMD_NR P"] by simp
  then have "sint (HPAGE_PMD_NR P) < 2 ^ 64"
    by (rule less_trans) simp
  then have "take_bit 64 (sint (HPAGE_PMD_NR P)) = sint (HPAGE_PMD_NR P)"
    using assms by (simp only: take_bit_int_eq_self)
  moreover have "uint (scast (HPAGE_PMD_NR P) :: c_ulong) = take_bit 64 (sint (HPAGE_PMD_NR P))"
    unfolding scast_eq uint_word_of_int_eq by simp
  ultimately show ?thesis
    by (simp only:)
qed

lemma step_wide_continue_bound:
  assumes "thp_util_scan_step_wide P M pfn_end s = (False, s')"
    and "uint pfn_end \<le> 2147483648" "0 \<le> sint (HPAGE_PMD_NR P)"
  shows "uint (pfn s') < 4294967296"
proof -
  have "\<not> pfn_end \<le> pfn s"
    using assms(1) step_wide_return_iff [of P M pfn_end s] by simp
  then have a: "uint (pfn s) < 2147483648"
    using assms(2) by (simp add: word_le_def)
  have p: "pfn s' = pfn s + scast (HPAGE_PMD_NR P)"
    using assms(1) step_wide_pfn [of P M pfn_end s] by simp
  have "uint (scast (HPAGE_PMD_NR P) :: c_ulong) < 2147483648"
    using sint_lt [of "HPAGE_PMD_NR P"] by (simp add: uint_scast_HPAGE_PMD_NR [OF assms(3)])
  with a uint_add_le [of "pfn s" "scast (HPAGE_PMD_NR P)"] show ?thesis
    unfolding p by linarith
qed

lemma scan_from_wide_eq:
  assumes "uint pfn_end \<le> 2147483648" "uint (pfn s) < 4294967296" "0 \<le> sint (HPAGE_PMD_NR P)"
  shows "thp_util_scan_from P M pfn_end i s = thp_util_scan_from_wide P M pfn_end i s"
  using assms
proof (induction P M pfn_end i s rule: thp_util_scan_from_wide.induct)
  case (1 P M pfn_end i s)
  show ?case
  proof (cases "i < THP_UTIL_SCAN_SIZE")
    case False
    then show ?thesis
      by (simp add: thp_util_scan_from.simps thp_util_scan_from_wide.simps)
  next
    case True
    obtain r s1 where st: "thp_util_scan_step_wide P M pfn_end s = (r, s1)"
      by (cases "thp_util_scan_step_wide P M pfn_end s")
    have st': "thp_util_scan_step P M pfn_end s = (r, s1)"
      using "1.prems" st by (simp add: step_wide_iff)
    show ?thesis
    proof (cases r)
      case True
      with st st' \<open>i < THP_UTIL_SCAN_SIZE\<close> show ?thesis
        by (simp add: thp_util_scan_from.simps [of P M pfn_end i]
            thp_util_scan_from_wide.simps [of P M pfn_end i])
    next
      case False
      with st have c: "thp_util_scan_step_wide P M pfn_end s = (False, s1)" by simp
      have b: "uint (pfn s1) < 4294967296"
        using c "1.prems"(1,3) by (rule step_wide_continue_bound)
      have "thp_util_scan_from P M pfn_end (Suc i) s1 = thp_util_scan_from_wide P M pfn_end (Suc i) s1"
        using "1.IH" [OF \<open>i < THP_UTIL_SCAN_SIZE\<close> st [symmetric] _ "1.prems"(1) b "1.prems"(3)] False
        by simp
      with st st' False \<open>i < THP_UTIL_SCAN_SIZE\<close> show ?thesis
        by (simp add: thp_util_scan_from.simps [of P M pfn_end i]
            thp_util_scan_from_wide.simps [of P M pfn_end i])
    qed
  qed
qed

text \<open>
  C10: a loop iteration stores the cursor in the \<^verbatim>\<open>int\<close> \<^verbatim>\<open>current_pfn\<close> and tests that value
  against the zone's end: the iteration returns exactly when the end is at most the cursor's
  low 32 bits, read as signed and converted back to 64 bits. For a zone that ends at or below
  frame \<open>2\<^sup>3\<^sup>1\<close> and a cursor below \<open>2\<^sup>3\<^sup>2\<close> the test is the comparison of the end with the
  full cursor, and a scan of such a zone that starts before the zone's end (as every scan of a
  firing does) is the scan that compares and looks up the full cursor.
\<close>

theorem thp_util_scan_int_cursor:
  "(fst (thp_util_scan_step P M pfn_end s) \<longleftrightarrow>
      uint pfn_end \<le> take_bit 64 (signed_take_bit 31 (uint (pfn s)))) \<and>
   (uint pfn_end \<le> 2 ^ 31 \<and> uint (pfn s) < 2 ^ 32 \<longrightarrow>
      (fst (thp_util_scan_step P M pfn_end s) \<longleftrightarrow> pfn_end \<le> pfn s)) \<and>
   (uint pfn_end \<le> 2 ^ 31 \<and> pfn s < pfn_end \<and> 0 \<le> sint (HPAGE_PMD_NR P) \<longrightarrow>
      thp_util_scan P M pfn_end s = thp_util_scan_wide P M pfn_end s)"
proof (intro conjI impI)
  show "fst (thp_util_scan_step P M pfn_end s) \<longleftrightarrow>
      uint pfn_end \<le> take_bit 64 (signed_take_bit 31 (uint (pfn s)))"
    by (simp add: step_return_iff word_le_def current_frame_uint)
next
  assume a: "uint pfn_end \<le> 2 ^ 31 \<and> uint (pfn s) < 2 ^ 32"
  then have "thp_util_scan_step P M pfn_end s = thp_util_scan_step_wide P M pfn_end s"
    by (intro step_wide_iff) simp_all
  then show "fst (thp_util_scan_step P M pfn_end s) \<longleftrightarrow> pfn_end \<le> pfn s"
    by (simp add: thp_util_scan_step_wide_def Let_def split: option.split)
next
  assume a: "uint pfn_end \<le> 2 ^ 31 \<and> pfn s < pfn_end \<and> 0 \<le> sint (HPAGE_PMD_NR P)"
  then have "uint (pfn s) < 4294967296" by (simp add: word_less_def)
  with a show "thp_util_scan P M pfn_end s = thp_util_scan_wide P M pfn_end s"
    by (simp add: thp_util_scan_def thp_util_scan_wide_def scan_from_wide_eq)
qed

theorem thp_util_scan_int_cursor_witness:
  "uint (512 :: c_ulong) \<le> 2 ^ 31 \<and>
   pfn (zero_scan_info\<lparr>scan_zone := Some zone_A\<rparr>) < 512 \<and>
   0 \<le> sint (HPAGE_PMD_NR x86_64) \<and>
   thp_util_scan_wide x86_64 two_zones 512 (zero_scan_info\<lparr>scan_zone := Some zone_A\<rparr>) =
     (1, zero_scan_info\<lparr>buckets := zero_buckets[0 := \<lparr>nr_thps = 1, nr_zero_pages = 511\<rparr>],
                        scan_zone := Some zone_A, pfn := 1024\<rparr>)"
proof -
  have h: "uint (512 :: c_ulong) \<le> 2 ^ 31 \<and>
      pfn (zero_scan_info\<lparr>scan_zone := Some zone_A\<rparr>) < 512 \<and>
      0 \<le> sint (HPAGE_PMD_NR x86_64)"
    by (simp add: zero_scan_info_def x86_64_def)
  with thp_util_scan_int_cursor [of x86_64 two_zones 512 "zero_scan_info\<lparr>scan_zone := Some zone_A\<rparr>"]
  have "thp_util_scan x86_64 two_zones 512 (zero_scan_info\<lparr>scan_zone := Some zone_A\<rparr>) =
      thp_util_scan_wide x86_64 two_zones 512 (zero_scan_info\<lparr>scan_zone := Some zone_A\<rparr>)"
    by blast
  with h show ?thesis
    by (simp only: two_zones_first_scan)
qed

text \<open>
  Above \<open>2\<^sup>3\<^sup>1\<close> the two differ: with the cursor at frame \<open>2\<^sup>3\<^sup>1\<close> in a zone that ends 1024
  frames later, the iteration returns at once, where the full comparison would go on.
\<close>

lemma thp_util_scan_step_above_2G:
  "fst (thp_util_scan_step P M 2147484672 (s\<lparr>pfn := 2147483648\<rparr>)) \<and>
   \<not> fst (thp_util_scan_step_wide P M 2147484672 (s\<lparr>pfn := 2147483648\<rparr>))"
  by (simp add: step_return_iff step_wide_return_iff current_frame_def)

section \<open>The accumulator during a pass\<close>

lemma acc_inv_zero: "acc_inv P zero_buckets []"
  by (simp add: acc_inv_def zero_buckets_def zero_bucket_def placed_def THP_UTIL_BUCKET_NR_def)

lemma bucket_valid_range:
  assumes "\<not> thp_utilization_bucket P u <s 0"
  shows "0 \<le> sint (thp_utilization_bucket P u) \<and> sint (thp_utilization_bucket P u) \<le> 9"
proof -
  let ?q = "int_div (u * THP_UTIL_BUCKET_NR) (HPAGE_PMD_NR P)"
  have nine: "sint (THP_UTIL_BUCKET_NR - 1) = 9"
    by (simp add: THP_UTIL_BUCKET_NR_def)
  have lo: "0 \<le> sint (thp_utilization_bucket P u)"
    using assms by (simp add: word_sless_alt)
  have "thp_utilization_bucket P u = - 1 \<or> thp_utilization_bucket P u = ?q \<and> ?q <s THP_UTIL_BUCKET_NR - 1
      \<or> thp_utilization_bucket P u = THP_UTIL_BUCKET_NR - 1"
    unfolding thp_utilization_bucket_def Let_def by presburger
  then consider "thp_utilization_bucket P u = - 1"
    | "thp_utilization_bucket P u = ?q" "?q <s THP_UTIL_BUCKET_NR - 1"
    | "thp_utilization_bucket P u = THP_UTIL_BUCKET_NR - 1"
    by blast
  then have "sint (thp_utilization_bucket P u) \<le> 9"
  proof cases
    case 1
    then show ?thesis by simp
  next
    case 2
    then have "sint (thp_utilization_bucket P u) < sint (THP_UTIL_BUCKET_NR - 1)"
      by (simp only: word_sless_alt)
    then show ?thesis by (simp only: nine)
  next
    case 3
    then show ?thesis by (simp only: nine)
  qed
  with lo show ?thesis by simp
qed

lemma bucket_valid_index:
  assumes "\<not> thp_utilization_bucket P u <s 0"
  shows "nat (sint (thp_utilization_bucket P u)) < 10 \<and>
         word_of_nat (nat (sint (thp_utilization_bucket P u))) = thp_utilization_bucket P u"
proof -
  let ?x = "thp_utilization_bucket P u"
  have r: "0 \<le> sint ?x" "sint ?x \<le> 9"
    using bucket_valid_range [OF assms] by simp_all
  then have "nat (sint ?x) < 10" by arith
  moreover have "(word_of_nat (nat (sint ?x)) :: c_int) = word_of_int (sint ?x)"
    using r(1) by (simp only: of_nat_nat)
  moreover have "(word_of_int (sint ?x) :: c_int) = ?x"
    by simp
  ultimately show ?thesis by simp
qed

lemma of_nat_bucket_inj:
  assumes "b < 10" "(word_of_nat b :: c_int) = thp_utilization_bucket P u"
  shows "b = nat (sint (thp_utilization_bucket P u))"
proof -
  have "sint (word_of_nat b :: c_int) = int b"
    using assms(1) by (simp add: signed_of_nat signed_take_bit_int_eq_self)
  then show ?thesis using assms(2) by simp
qed

lemma placed_invalid:
  assumes "thp_utilization_bucket P u <s 0" "b < 10"
  shows "placed P b (us @ [u]) = placed P b us"
proof -
  have "sint (word_of_nat b :: c_int) = int b"
    using assms(2) by (simp add: signed_of_nat signed_take_bit_int_eq_self)
  then have "thp_utilization_bucket P u \<noteq> word_of_nat b"
    using assms(1) by (auto simp add: word_sless_alt)
  then show ?thesis by (simp add: placed_def)
qed

lemma placed_valid:
  assumes "\<not> thp_utilization_bucket P u <s 0" "b < 10"
  shows "placed P b (us @ [u]) =
     (if b = nat (sint (thp_utilization_bucket P u)) then placed P b us @ [u] else placed P b us)"
proof (cases "b = nat (sint (thp_utilization_bucket P u))")
  case True
  then have "thp_utilization_bucket P u = word_of_nat b"
    using bucket_valid_index [OF assms(1)] by simp
  with True show ?thesis by (simp add: placed_def)
next
  case False
  then have "thp_utilization_bucket P u \<noteq> word_of_nat b"
    using of_nat_bucket_inj [OF assms(2), of P u] by metis
  with False show ?thesis by (simp add: placed_def)
qed

lemma acc_inv_count_thp:
  assumes "acc_inv P bs us" "\<not> thp_utilization_bucket P u <s 0"
  shows "acc_inv P (count_thp P (thp_utilization_bucket P u) u bs) (us @ [u])"
proof -
  let ?i = "nat (sint (thp_utilization_bucket P u))"
  have i: "?i < 10" using bucket_valid_index [OF assms(2)] by simp
  have len: "length bs = 10" using assms(1) by (simp add: acc_inv_def)
  show ?thesis
    unfolding acc_inv_def
  proof (intro conjI allI impI)
    show "length (count_thp P (thp_utilization_bucket P u) u bs) = 10"
      using len by (simp add: count_thp_def Let_def)
  next
    fix b :: nat assume b: "b < 10"
    from assms(1) b have old: "nr_thps (bs ! b) = word_of_nat (length (placed P b us))"
      "nr_zero_pages (bs ! b) = sum_list (map (\<lambda>u. HPAGE_PMD_NR P - u) (placed P b us))"
      by (simp_all add: acc_inv_def)
    show "nr_thps (count_thp P (thp_utilization_bucket P u) u bs ! b) =
        word_of_nat (length (placed P b (us @ [u])))"
      using old b i len by (simp add: count_thp_def Let_def placed_valid [OF assms(2) b] nth_list_update)
    show "nr_zero_pages (count_thp P (thp_utilization_bucket P u) u bs ! b) =
        sum_list (map (\<lambda>u. HPAGE_PMD_NR P - u) (placed P b (us @ [u])))"
      using old b i len by (simp add: count_thp_def Let_def placed_valid [OF assms(2) b] nth_list_update)
  qed
qed

lemma acc_inv_invalid:
  assumes "acc_inv P bs us" "thp_utilization_bucket P u <s 0"
  shows "acc_inv P bs (us @ [u])"
  using assms by (simp add: acc_inv_def placed_invalid)

lemma acc_inv_step:
  assumes "acc_inv P (buckets s) us"
  shows "acc_inv P (buckets (snd (thp_util_scan_step P M e s))) (us @ step_examined P M e s)"
proof (cases "e \<le> current_frame s")
  case True
  then show ?thesis
    using assms by (simp add: thp_util_scan_step_def step_examined_def current_frame_def Let_def)
next
  case False
  show ?thesis
  proof (cases "pfn_to_online_page M (current_frame s)")
    case None
    with False show ?thesis
      using assms by (simp add: thp_util_scan_step_def step_examined_def current_frame_def Let_def)
  next
    case (Some page)
    let ?u = "thp_number_utilized_pages P (page_folio M page)"
    show ?thesis
    proof (cases "thp_utilization_bucket P ?u <s 0")
      case True
      with False Some acc_inv_invalid [OF assms True] show ?thesis
        by (simp add: thp_util_scan_step_def step_examined_def current_frame_def Let_def)
    next
      case nv: False
      with False Some acc_inv_count_thp [OF assms nv] show ?thesis
        by (simp add: thp_util_scan_step_def step_examined_def current_frame_def Let_def)
    qed
  qed
qed


lemma step_return_quiet:
  assumes "e \<le> current_frame s"
  shows "step_examined P M e s = [] \<and> buckets (snd (thp_util_scan_step P M e s)) = buckets s"
  using assms
  by (simp add: step_examined_def thp_util_scan_step_def current_frame_def Let_def)

lemma acc_inv_after_steps:
  assumes "acc_inv P (buckets s) us"
  shows "acc_inv P (buckets (after_steps P M e k s))
           (us @ concat (map (\<lambda>i. step_examined P M e (after_steps P M e i s)) [0..<k]))"
proof (induction k)
  case 0
  show ?case using assms by simp
next
  case (Suc k)
  from acc_inv_step [OF Suc, of M e] show ?case
    by (simp add: after_steps_Suc')
qed

lemma acc_inv_scan:
  assumes "acc_inv P (buckets s) us"
  shows "acc_inv P (buckets (snd (thp_util_scan P M e s))) (us @ scan_examined P M e s)"
proof -
  let ?j = "fst (thp_util_scan P M e s)"
  note c = scan_char [of P M e s]
  have a: "acc_inv P (buckets (after_steps P M e ?j s)) (us @ scan_examined P M e s)"
    unfolding scan_examined_def by (rule acc_inv_after_steps [OF assms])
  show ?thesis
  proof (cases "?j < THP_UTIL_SCAN_SIZE")
    case True
    with c have "e \<le> current_frame (after_steps P M e ?j s)"
      and s: "snd (thp_util_scan P M e s) = after_steps P M e (Suc ?j) s"
      by simp_all
    then have "buckets (after_steps P M e (Suc ?j) s) = buckets (after_steps P M e ?j s)"
      by (simp add: after_steps_Suc' step_return_quiet)
    with a s show ?thesis by simp
  next
    case False
    with c have "snd (thp_util_scan P M e s) = after_steps P M e ?j s" by simp
    with a show ?thesis by simp
  qed
qed

lemma acc_inv_firing:
  assumes "thp_utilization_workfn P M now g = Some g'" "acc_inv P (buckets (thp_scan g)) us"
  shows "acc_inv P (buckets (thp_scan g')) (firing_examined P M g us)"
proof (cases "managed_zone (firing_zone M g) \<and> pfn (thp_scan g) < zone_end_pfn (firing_zone M g)")
  case True
  then have "thp_utilization_workfn P M now g =
     Some (g\<lparr>thp_scan := snd (thp_util_scan P M (zone_end_pfn (firing_zone M g))
                                ((thp_scan g)\<lparr>scan_zone := Some (firing_zone M g)\<rparr>))\<rparr>)"
    by (intro workfn_scan_branch) simp_all
  with assms(1) have g': "thp_scan g' = snd (thp_util_scan P M (zone_end_pfn (firing_zone M g))
                                ((thp_scan g)\<lparr>scan_zone := Some (firing_zone M g)\<rparr>))"
    by auto
  have "acc_inv P (buckets ((thp_scan g)\<lparr>scan_zone := Some (firing_zone M g)\<rparr>)) us"
    using assms(2) by simp
  from acc_inv_scan [OF this, of M "zone_end_pfn (firing_zone M g)"] True show ?thesis
    by (simp add: g' firing_examined_def Let_def)
next
  case False
  let ?g = "g\<lparr>thp_scan := (thp_scan g)\<lparr>scan_zone := Some (firing_zone M g)\<rparr>\<rparr>"
  have w: "thp_scan_next_zone P M now ?g = Some g'"
    using workfn_next_zone_branch [OF False, of P now] assms(1) by simp
  have z: "scan_zone (thp_scan ?g) = Some (firing_zone M g)" by simp
  show ?thesis
  proof (cases "next_zone M (firing_zone M g)")
    case None
    from next_zone_wrap [OF z None, of P now] w have "buckets (thp_scan g') = zero_buckets"
      by auto
    with False None show ?thesis
      by (auto simp add: firing_examined_def Let_def acc_inv_zero)
  next
    case (Some z')
    from next_zone_advance [OF z Some, of P now] w have "buckets (thp_scan g') = buckets (thp_scan g)"
      by auto
    with False Some assms(2) show ?thesis
      by (auto simp add: firing_examined_def Let_def)
  qed
qed

lemma acc_inv_run:
  assumes "run P fs g = Some g'" "acc_inv P (buckets (thp_scan g)) us"
  shows "acc_inv P (buckets (thp_scan g')) (run_examined P fs g us)"
  using assms
proof (induction fs arbitrary: g us)
  case Nil
  then show ?case by simp
next
  case (Cons f fs)
  obtain M now where f: "f = (M, now)" by (cases f)
  from Cons.prems(1) obtain g1 where w: "thp_utilization_workfn P M now g = Some g1"
    and r: "run P fs g1 = Some g'"
    by (auto simp add: f split: option.splits)
  from acc_inv_firing [OF w Cons.prems(2)] have "acc_inv P (buckets (thp_scan g1)) (firing_examined P M g us)" .
  from Cons.IH [OF r this] show ?case
    by (simp add: f w)
qed

lemma workfn_total: "\<exists>g'. thp_utilization_workfn P M now g = Some g'"
proof (cases "managed_zone (firing_zone M g) \<and> pfn (thp_scan g) < zone_end_pfn (firing_zone M g)")
  case True
  then show ?thesis by (simp add: workfn_scan_branch)
next
  case False
  let ?g = "g\<lparr>thp_scan := (thp_scan g)\<lparr>scan_zone := Some (firing_zone M g)\<rparr>\<rparr>"
  have z: "scan_zone (thp_scan ?g) = Some (firing_zone M g)" by simp
  show ?thesis
    unfolding workfn_next_zone_branch [OF False]
    using next_zone_wrap [OF z, of M P now] next_zone_advance [OF z, of M _ P now]
    by (cases "next_zone M (firing_zone M g)") auto
qed

lemma run_total: "\<exists>g'. run P fs g = Some g'"
proof (induction fs arbitrary: g)
  case Nil
  show ?case by simp
next
  case (Cons f fs)
  obtain M now where f: "f = (M, now)" by (cases f)
  obtain g1 where w: "thp_utilization_workfn P M now g = Some g1"
    using workfn_total by blast
  with Cons [of g1] show ?case by (simp add: f)
qed


lemma sint_of_nat_small:
  assumes "int k < 2147483648"
  shows "sint (word_of_nat k :: c_int) = int k"
  using assms by (simp add: signed_of_nat signed_take_bit_int_eq_self)

lemma placed_range:
  assumes "u \<in> set (placed P b us)" "b < 10"
  shows "0 \<le> sint u \<and> sint u \<le> sint (HPAGE_PMD_NR P)"
proof -
  have e: "thp_utilization_bucket P u = word_of_nat b"
    using assms(1) by (simp add: placed_def)
  have "sint (word_of_nat b :: c_int) = int b"
    using assms(2) by (intro sint_of_nat_small) simp
  then have "thp_utilization_bucket P u \<noteq> - 1"
    unfolding e by auto
  then have "\<not> (u <s 0 \<or> HPAGE_PMD_NR P <s u)"
    unfolding thp_utilization_bucket_def by meson
  then show ?thesis by (simp add: word_sless_alt)
qed

lemma sint_zero_pages:
  assumes "0 \<le> sint u" "sint u \<le> sint (n :: c_int)"
  shows "sint (n - u) = sint n - sint u"
proof -
  have "sint n < 2147483648" using sint_lt [of n] by simp
  then have "- 2147483648 \<le> sint n - sint u" "sint n - sint u < 2147483648"
    using assms by simp_all
  then have "signed_take_bit 31 (sint n - sint u) = sint n - sint u"
    by (simp add: signed_take_bit_int_eq_self)
  then show ?thesis by (simp add: sint_word_ariths)
qed

lemma sint_sum_list:
  fixes xs :: "c_int list"
  assumes "\<forall>x \<in> set xs. 0 \<le> sint x" "(\<Sum>x\<leftarrow>xs. sint x) < 2147483648"
  shows "sint (sum_list xs) = (\<Sum>x\<leftarrow>xs. sint x) \<and> 0 \<le> (\<Sum>x\<leftarrow>xs. sint x)"
  using assms
proof (induction xs)
  case Nil
  show ?case by simp
next
  case (Cons x xs)
  have x: "0 \<le> sint x" using Cons.prems(1) by simp
  have t: "sint x + (\<Sum>x\<leftarrow>xs. sint x) < 2147483648" using Cons.prems(2) by simp
  with x have "(\<Sum>x\<leftarrow>xs. sint x) < 2147483648" by linarith
  with Cons.IH Cons.prems(1)
  have ih: "sint (sum_list xs) = (\<Sum>x\<leftarrow>xs. sint x)" "0 \<le> (\<Sum>x\<leftarrow>xs. sint x)"
    by simp_all
  have "- 2147483648 \<le> sint x + (\<Sum>x\<leftarrow>xs. sint x)" using x ih(2) by simp
  with t have "signed_take_bit 31 (sint x + (\<Sum>x\<leftarrow>xs. sint x)) = sint x + (\<Sum>x\<leftarrow>xs. sint x)"
    by (simp add: signed_take_bit_int_eq_self)
  then have "sint (x + sum_list xs) = sint x + (\<Sum>x\<leftarrow>xs. sint x)"
    by (simp add: sint_word_ariths ih(1))
  with x ih(2) show ?case by simp
qed

lemma sum_list_const_minus:
  "(\<Sum>u\<leftarrow>us. (c::int) - f u) = int (length us) * c - (\<Sum>u\<leftarrow>us. f u)"
  by (induction us) (simp_all add: distrib_right)

lemma placed_length: "length (placed P b us) \<le> length us"
  by (simp add: placed_def)

lemma placed_indicator:
  "(\<Sum>b<10. if thp_utilization_bucket P u = (word_of_nat b :: c_int) then 1 else 0) =
     (if \<not> thp_utilization_bucket P u <s 0 then 1 else (0::nat))"
proof (cases "thp_utilization_bucket P u <s 0")
  case True
  have "\<And>b. b < 10 \<Longrightarrow> thp_utilization_bucket P u \<noteq> word_of_nat b"
  proof -
    fix b :: nat assume "b < 10"
    then have "sint (word_of_nat b :: c_int) = int b"
      by (intro sint_of_nat_small) simp
    with True show "thp_utilization_bucket P u \<noteq> word_of_nat b"
      by (auto simp add: word_sless_alt)
  qed
  then have "(\<Sum>b<10. if thp_utilization_bucket P u = (word_of_nat b :: c_int) then 1 else 0) =
      (\<Sum>b<(10::nat). (0::nat))"
    by (intro sum.cong) simp_all
  with True show ?thesis by simp
next
  case False
  let ?i = "nat (sint (thp_utilization_bucket P u))"
  note i = bucket_valid_index [OF False]
  have "(\<Sum>b<10. if thp_utilization_bucket P u = (word_of_nat b :: c_int) then 1 else 0) =
      (\<Sum>b<(10::nat). if b = ?i then 1 else (0::nat))"
  proof (intro sum.cong refl)
    fix b :: nat assume "b \<in> {..<10}"
    then have b: "b < 10" by simp
    have "thp_utilization_bucket P u = word_of_nat b \<longleftrightarrow> b = ?i"
      using of_nat_bucket_inj [OF b, of P u] i by metis
    then show "(if thp_utilization_bucket P u = (word_of_nat b :: c_int) then 1 else 0) =
        (if b = ?i then 1 else (0::nat))"
      by simp
  qed
  also have "\<dots> = 1"
    using i by (simp add: sum.delta)
  finally show ?thesis using False by simp
qed

lemma placed_partition:
  "(\<Sum>b<10. length (placed P b us)) = length (valid_units P us)"
proof (induction us)
  case Nil
  show ?case by (simp add: placed_def valid_units_def)
next
  case (Cons u us)
  have "(\<Sum>b<10. length (placed P b (u # us))) =
      (\<Sum>b<10. (if thp_utilization_bucket P u = (word_of_nat b :: c_int) then 1 else 0) +
                 length (placed P b us))"
    by (intro sum.cong refl) (simp add: placed_def)
  also have "\<dots> = (if \<not> thp_utilization_bucket P u <s 0 then 1 else 0) + length (valid_units P us)"
    by (simp only: sum.distrib placed_indicator Cons.IH)
  also have "\<dots> = length (valid_units P (u # us))"
    by (simp add: valid_units_def)
  finally show ?case .
qed

lemma placed_le_valid:
  assumes "b < 10"
  shows "length (placed P b us) \<le> length (valid_units P us)"
proof -
  have "length (placed P b us) \<le> (\<Sum>b<10. length (placed P b us))"
    using assms by (intro member_le_sum) simp_all
  then show ?thesis by (simp only: placed_partition)
qed

lemma acc_inv_int:
  assumes inv: "acc_inv P bs us"
    and cnt: "int (length (valid_units P us)) < 2 ^ 31"
    and tot: "\<forall>b < 10. (\<Sum>u\<leftarrow>placed P b us. sint (HPAGE_PMD_NR P) - sint u) < 2 ^ 31"
  shows "(\<forall>b < 10.
            sint (nr_thps (bs ! b)) = int (length (placed P b us)) \<and>
            sint (nr_zero_pages (bs ! b)) =
              sint (nr_thps (bs ! b)) * sint (HPAGE_PMD_NR P) - (\<Sum>u\<leftarrow>placed P b us. sint u) \<and>
            0 \<le> sint (nr_zero_pages (bs ! b))) \<and>
         (\<Sum>b<10. sint (nr_thps (bs ! b))) = int (length (valid_units P us))"
proof -
  let ?n = "HPAGE_PMD_NR P"
  have per: "sint (nr_thps (bs ! b)) = int (length (placed P b us)) \<and>
            sint (nr_zero_pages (bs ! b)) =
              sint (nr_thps (bs ! b)) * sint ?n - (\<Sum>u\<leftarrow>placed P b us. sint u) \<and>
            0 \<le> sint (nr_zero_pages (bs ! b))" if b: "b < 10" for b
  proof -
    let ?pl = "placed P b us"
    from inv b have th: "nr_thps (bs ! b) = word_of_nat (length ?pl)"
      and zp: "nr_zero_pages (bs ! b) = sum_list (map (\<lambda>u. ?n - u) ?pl)"
      by (simp_all add: acc_inv_def)
    have "int (length ?pl) < 2147483648"
      using placed_le_valid [OF b, of P us] cnt by simp
    then have c: "sint (nr_thps (bs ! b)) = int (length ?pl)"
      unfolding th by (rule sint_of_nat_small)
    have each: "sint (?n - u) = sint ?n - sint u \<and> 0 \<le> sint (?n - u)" if "u \<in> set ?pl" for u
      using placed_range [OF that b] by (simp add: sint_zero_pages)
    then have m: "(\<Sum>x\<leftarrow>map (\<lambda>u. ?n - u) ?pl. sint x) = (\<Sum>u\<leftarrow>?pl. sint ?n - sint u)"
      by (simp add: comp_def cong: map_cong)
    have e2: "0 \<le> sint (?n - u)" if "u \<in> set ?pl" for u
      using each [OF that] by blast
    have nonneg: "\<forall>x \<in> set (map (\<lambda>u. ?n - u) ?pl). 0 \<le> sint x"
      using e2 by auto
    have "(\<Sum>x\<leftarrow>map (\<lambda>u. ?n - u) ?pl. sint x) < 2147483648"
      using tot b by (simp only: m) simp
    from sint_sum_list [OF nonneg this]
    have "sint (nr_zero_pages (bs ! b)) = (\<Sum>u\<leftarrow>?pl. sint ?n - sint u)"
      and "0 \<le> sint (nr_zero_pages (bs ! b))"
      unfolding zp m by simp_all
    then show ?thesis
      using c by (simp add: sum_list_const_minus)
  qed
  have "(\<Sum>b<10. sint (nr_thps (bs ! b))) = (\<Sum>b<10. int (length (placed P b us)))"
    by (intro sum.cong refl) (simp add: per)
  also have "\<dots> = int (\<Sum>b<10. length (placed P b us))" by simp
  also have "\<dots> = int (length (valid_units P us))" by (simp only: placed_partition)
  finally have "(\<Sum>b<10. sint (nr_thps (bs ! b))) = int (length (valid_units P us))" .
  with per show ?thesis by blast
qed

text \<open>
  C6, as the code has it: over any run of the worker from its initial state, as long as the
  number of units placed in the current pass and every bucket's total of zero pages are below
  \<open>2\<^sup>3\<^sup>1\<close> (the counters are \<^verbatim>\<open>int\<close>), every bucket's \<^verbatim>\<open>nr_thps\<close> is the number of units
  of the pass placed in it, its \<^verbatim>\<open>nr_zero_pages\<close> is \<^verbatim>\<open>nr_thps\<close> times \<open>N\<close> minus the sum of
  their utilized counts and is not negative, and the \<^verbatim>\<open>nr_thps\<close> of all buckets add up to the
  number of units of the pass that the bucketizer gave a valid bucket.
\<close>

theorem accumulator_accounts_for_pass:
  assumes "run P fs initial_globals = Some g"
    and "int (length (valid_units P (run_examined P fs initial_globals []))) < 2 ^ 31"
    and "\<forall>b < 10. (\<Sum>u\<leftarrow>placed P b (run_examined P fs initial_globals []).
                       sint (HPAGE_PMD_NR P) - sint u) < 2 ^ 31"
  shows "(\<forall>b < 10.
            sint (nr_thps (buckets (thp_scan g) ! b)) =
              int (length (placed P b (run_examined P fs initial_globals []))) \<and>
            sint (nr_zero_pages (buckets (thp_scan g) ! b)) =
              sint (nr_thps (buckets (thp_scan g) ! b)) * sint (HPAGE_PMD_NR P) -
              (\<Sum>u\<leftarrow>placed P b (run_examined P fs initial_globals []). sint u) \<and>
            0 \<le> sint (nr_zero_pages (buckets (thp_scan g) ! b))) \<and>
         (\<Sum>b<10. sint (nr_thps (buckets (thp_scan g) ! b))) =
           int (length (valid_units P (run_examined P fs initial_globals [])))"
proof -
  have "acc_inv P (buckets (thp_scan initial_globals)) []"
    by (simp add: initial_globals_def zero_scan_info_def acc_inv_zero)
  from acc_inv_run [OF assms(1) this] assms(2,3) show ?thesis
    by (rule acc_inv_int)
qed


lemma run_single: "run P [(M, now)] g = thp_utilization_workfn P M now g"
  by (cases "thp_utilization_workfn P M now g") simp_all

lemma run_examined_single:
  "run_examined P [(M, now)] g us =
     (case thp_utilization_workfn P M now g of None \<Rightarrow> us | Some g' \<Rightarrow> firing_examined P M g us)"
  by (cases "thp_utilization_workfn P M now g") simp_all

lemma two_zones_first_examined:
  "run_examined x86_64 [(two_zones, noon)] initial_globals [] = [1]"
proof -
  have z: "firing_zone two_zones initial_globals = zone_A"
    by (simp add: firing_zone_def initial_globals_def zero_scan_info_def two_zones_def)
  have e: "zone_end_pfn zone_A = 512" "thp_scan initial_globals = zero_scan_info"
    "managed_zone zone_A" "pfn zero_scan_info < 512"
    by (simp_all add: zone_A_def initial_globals_def zero_scan_info_def)
  have "step_examined x86_64 two_zones 512 (zero_scan_info\<lparr>scan_zone := Some zone_A\<rparr>) = [1]"
    by (simp add: step_examined_def current_frame_def zero_scan_info_def two_zones_def
        utilized_one_byte_thp)
  then have s: "scan_examined x86_64 two_zones 512 (zero_scan_info\<lparr>scan_zone := Some zone_A\<rparr>) = [1]"
    by (simp add: scan_examined_def two_zones_first_scan)
  have "firing_examined x86_64 two_zones initial_globals [] = [1]"
    unfolding firing_examined_def Let_def z e(1,2) s using e(3,4) by simp
  then show ?thesis
    unfolding run_examined_single two_zones_first_firing option.case .
qed

lemma bucket_x86_64_one: "thp_utilization_bucket x86_64 1 = 0"
  by (simp add: thp_utilization_bucket_def x86_64_def int_div_def THP_UTIL_BUCKET_NR_def
      word_sless_alt signed_divide_int_def Let_def)

lemma of_nat_bucket_zero:
  assumes "b < 10"
  shows "(0 :: c_int) = word_of_nat b \<longleftrightarrow> b = 0"
proof
  assume "(0 :: c_int) = word_of_nat b"
  then have "sint (word_of_nat b :: c_int) = 0" by simp
  moreover have "sint (word_of_nat b :: c_int) = int b"
    using assms by (intro sint_of_nat_small) simp
  ultimately show "b = 0" by simp
next
  assume "b = 0"
  then show "(0 :: c_int) = word_of_nat b" by simp
qed

lemma placed_one: "b < 10 \<Longrightarrow> placed x86_64 b [1] = (if b = 0 then [1] else [])"
  by (simp add: placed_def bucket_x86_64_one of_nat_bucket_zero)

theorem accumulator_accounts_for_pass_witness:
  "run x86_64 [(two_zones, noon)] initial_globals =
     Some \<lparr>thp_scan_debugfs = zero_scan_info,
           thp_scan = zero_scan_info
             \<lparr>buckets := zero_buckets[0 := \<lparr>nr_thps = 1, nr_zero_pages = 511\<rparr>],
              scan_zone := Some zone_A, pfn := 1024\<rparr>\<rparr> \<and>
   run_examined x86_64 [(two_zones, noon)] initial_globals [] = [1] \<and>
   placed x86_64 0 [1] = [1] \<and>
   valid_units x86_64 [1] = [1] \<and>
   sint (nr_zero_pages ((zero_buckets[0 := \<lparr>nr_thps = 1, nr_zero_pages = 511\<rparr>]) ! 0)) =
     sint (nr_thps ((zero_buckets[0 := \<lparr>nr_thps = 1, nr_zero_pages = 511\<rparr>]) ! 0)) * 512 - 1 \<and>
   (\<Sum>b<10. sint (nr_thps ((zero_buckets[0 := \<lparr>nr_thps = 1, nr_zero_pages = 511\<rparr>]) ! b))) = 1"
proof -
  let ?B = "zero_buckets[0 := \<lparr>nr_thps = 1, nr_zero_pages = 511\<rparr>]"
  let ?g = "\<lparr>thp_scan_debugfs = zero_scan_info,
           thp_scan = zero_scan_info\<lparr>buckets := ?B, scan_zone := Some zone_A, pfn := 1024\<rparr>\<rparr>"
  let ?us = "run_examined x86_64 [(two_zones, noon)] initial_globals []"
  have r: "run x86_64 [(two_zones, noon)] initial_globals = Some ?g"
    unfolding run_single by (rule two_zones_first_firing)
  have v: "valid_units x86_64 [1] = [1]"
    by (simp add: valid_units_def bucket_x86_64_one)
  have p0: "placed x86_64 0 [1] = [1]"
    by (simp add: placed_one)
  have n: "sint (HPAGE_PMD_NR x86_64) = 512" by (simp add: x86_64_def)
  have h2: "int (length (valid_units x86_64 ?us)) < 2 ^ 31"
    unfolding two_zones_first_examined v by simp
  have h3: "\<forall>b < 10. (\<Sum>u\<leftarrow>placed x86_64 b ?us. sint (HPAGE_PMD_NR x86_64) - sint u) < 2 ^ 31"
    unfolding two_zones_first_examined n by (simp add: placed_one)
  have bk: "buckets (thp_scan ?g) = ?B" by simp
  note T = accumulator_accounts_for_pass [OF r h2 h3]
  from T have "(\<Sum>b<10. sint (nr_thps (buckets (thp_scan ?g) ! b))) = int (length (valid_units x86_64 ?us))"
    by (rule conjunct2)
  then have c1: "(\<Sum>b<10. sint (nr_thps (?B ! b))) = 1"
    unfolding bk two_zones_first_examined v by simp
  from T have "\<forall>b<10. sint (nr_thps (buckets (thp_scan ?g) ! b)) = int (length (placed x86_64 b ?us)) \<and>
            sint (nr_zero_pages (buckets (thp_scan ?g) ! b)) =
              sint (nr_thps (buckets (thp_scan ?g) ! b)) * sint (HPAGE_PMD_NR x86_64) -
              (\<Sum>u\<leftarrow>placed x86_64 b ?us. sint u) \<and>
            0 \<le> sint (nr_zero_pages (buckets (thp_scan ?g) ! b))"
    by (rule conjunct1)
  then have "sint (nr_zero_pages (buckets (thp_scan ?g) ! 0)) =
              sint (nr_thps (buckets (thp_scan ?g) ! 0)) * sint (HPAGE_PMD_NR x86_64) -
              (\<Sum>u\<leftarrow>placed x86_64 0 ?us. sint u)"
    by simp
  then have c2: "sint (nr_zero_pages (?B ! 0)) = sint (nr_thps (?B ! 0)) * 512 - 1"
    unfolding bk two_zones_first_examined p0 n by simp
  from r two_zones_first_examined p0 v c2 c1 show ?thesis
    by (intro conjI)
qed


subsection \<open>A pass that overflows a counter\<close>

lemma utilized_zero_thp: "thp_number_utilized_pages x86_64 (Some zero_thp) = 0"
proof -
  have "length (filter zero_page (folio_pages zero_thp)) = 512"
    by (simp add: zero_thp_def zero_page_replicate)
  then show ?thesis
    by (simp add: thp_number_utilized_pages_Some zero_thp_def x86_64_def)
qed

lemma zero_mem_examined:
  "step_examined x86_64 zero_mem e s = (if e \<le> current_frame s then [] else [0])"
  by (simp add: step_examined_def zero_mem_def utilized_zero_thp)

lemma uint_plus_512:
  fixes x :: c_ulong
  assumes "uint x + 512 < 2 ^ 64"
  shows "uint (x + 512) = uint x + 512"
proof -
  have "uint x + uint (512 :: c_ulong) < 2 ^ LENGTH(64)"
    using assms by simp
  then have "uint (x + 512) = uint x + uint (512 :: c_ulong)"
    by (simp only: uint_add_lem)
  then show ?thesis by simp
qed

lemma x86_64_after_steps_pfn:
  assumes "uint (pfn s) + 512 * int k < 2 ^ 64"
  shows "uint (pfn (after_steps x86_64 M e k s)) = uint (pfn s) + 512 * int k"
  using assms
proof (induction k)
  case 0
  show ?case by simp
next
  case (Suc k)
  have n: "(scast (HPAGE_PMD_NR x86_64) :: c_ulong) = 512"
    by (simp add: x86_64_def)
  from Suc.prems have b: "uint (pfn s) + 512 * int k + 512 < 2 ^ 64" by simp
  with uint_nonnegative [of "pfn s"] have "uint (pfn s) + 512 * int k < 2 ^ 64" by linarith
  with Suc.IH have ih: "uint (pfn (after_steps x86_64 M e k s)) = uint (pfn s) + 512 * int k"
    by simp
  have "uint (pfn (after_steps x86_64 M e k s) + 512) = uint (pfn (after_steps x86_64 M e k s)) + 512"
    using b by (intro uint_plus_512) (simp only: ih)
  then show ?case
    by (simp add: after_steps_Suc' n ih)
qed

lemma zero_mem_current_frame:
  assumes "uint (pfn s) + 512 * int k < 2147483648"
  shows "\<not> 2147483648 \<le> current_frame (after_steps x86_64 zero_mem 2147483648 k s)"
proof -
  let ?t = "after_steps x86_64 zero_mem 2147483648 k s"
  have u: "uint (pfn ?t) = uint (pfn s) + 512 * int k"
    using assms by (intro x86_64_after_steps_pfn) simp
  then have "uint (pfn ?t) < 2147483648" using assms by simp
  then have "current_frame ?t = pfn ?t" by (rule current_frame_low)
  then show ?thesis
    using u assms by (simp add: word_le_def)
qed

lemma zero_mem_scan:
  assumes "uint (pfn s) + 131072 \<le> 2147483648"
  shows "fst (thp_util_scan x86_64 zero_mem 2147483648 s) = 256 \<and>
         scan_examined x86_64 zero_mem 2147483648 s = replicate 256 0 \<and>
         uint (pfn (snd (thp_util_scan x86_64 zero_mem 2147483648 s))) = uint (pfn s) + 131072 \<and>
         scan_zone (snd (thp_util_scan x86_64 zero_mem 2147483648 s)) = scan_zone s"
proof -
  let ?e = "2147483648 :: c_ulong"
  let ?j = "fst (thp_util_scan x86_64 zero_mem ?e s)"
  note c = scan_char [of x86_64 zero_mem ?e s]
  have le: "?j \<le> 256" using c by (simp add: THP_UTIL_SCAN_SIZE_def)
  have nr: "\<not> ?e \<le> current_frame (after_steps x86_64 zero_mem ?e k s)" if "k < 256" for k
  proof -
    have "512 * int k < 131072" using that by simp
    with assms have "uint (pfn s) + 512 * int k < 2147483648" by linarith
    then show ?thesis by (rule zero_mem_current_frame)
  qed
  have j: "?j = 256"
  proof (rule ccontr)
    assume "?j \<noteq> 256"
    with le have lt: "?j < 256" by simp
    with c have "?e \<le> current_frame (after_steps x86_64 zero_mem ?e ?j s)"
      by (simp add: THP_UTIL_SCAN_SIZE_def)
    with nr [OF lt] show False by simp
  qed
  have s': "snd (thp_util_scan x86_64 zero_mem ?e s) = after_steps x86_64 zero_mem ?e 256 s"
    using c by (simp add: j THP_UTIL_SCAN_SIZE_def)
  have "uint (pfn s) + 512 * int 256 < 2 ^ 64"
    using assms by simp
  then have p: "uint (pfn (after_steps x86_64 zero_mem ?e 256 s)) = uint (pfn s) + 512 * int 256"
    by (rule x86_64_after_steps_pfn)
  have "map (\<lambda>k. step_examined x86_64 zero_mem ?e (after_steps x86_64 zero_mem ?e k s)) [0..<256] =
      map (\<lambda>k. [0]) [0..<256]"
    by (intro map_cong refl) (simp add: zero_mem_examined nr)
  then have "scan_examined x86_64 zero_mem ?e s = concat (map (\<lambda>k. [0]) [0..<256])"
    by (simp only: scan_examined_def j)
  also have "\<dots> = replicate 256 0"
    by (simp add: map_replicate_const)
  finally show ?thesis
    using j p by (simp add: s')
qed

lemma zero_mem_firing:
  assumes "scan_zone (thp_scan g) = None \<or> scan_zone (thp_scan g) = Some zone_8T"
    and "uint (pfn (thp_scan g)) + 131072 \<le> 2147483648"
  shows "\<exists>g'. thp_utilization_workfn x86_64 zero_mem now g = Some g' \<and>
           scan_zone (thp_scan g') = Some zone_8T \<and>
           uint (pfn (thp_scan g')) = uint (pfn (thp_scan g)) + 131072 \<and>
           firing_examined x86_64 zero_mem g us = us @ replicate 256 0"
proof -
  let ?s = "(thp_scan g)\<lparr>scan_zone := Some zone_8T\<rparr>"
  have z: "firing_zone zero_mem g = zone_8T"
    using assms(1) by (auto simp add: firing_zone_def zero_mem_def)
  have e: "zone_end_pfn zone_8T = 2147483648" "managed_zone zone_8T"
    by (simp_all add: zone_8T_def)
  have lt: "pfn (thp_scan g) < 2147483648"
    using assms(2) by (simp add: word_less_def)
  have m: "managed_zone (firing_zone zero_mem g)"
    "pfn (thp_scan g) < zone_end_pfn (firing_zone zero_mem g)"
    unfolding z e using lt e(2) by simp_all
  have w: "thp_utilization_workfn x86_64 zero_mem now g =
      Some (g\<lparr>thp_scan := snd (thp_util_scan x86_64 zero_mem 2147483648 ?s)\<rparr>)"
    using workfn_scan_branch [OF m, of x86_64 now] unfolding z e(1) .
  have "uint (pfn ?s) + 131072 \<le> 2147483648" using assms(2) by simp
  note sc = zero_mem_scan [OF this]
  have f: "firing_examined x86_64 zero_mem g us = us @ replicate 256 0"
    unfolding firing_examined_def Let_def z e(1) using e(2) lt sc by simp
  show ?thesis
    unfolding w using sc f by simp
qed

lemma zero_mem_run:
  assumes "scan_zone (thp_scan g) = None \<or> scan_zone (thp_scan g) = Some zone_8T"
    and "uint (pfn (thp_scan g)) + 131072 * int k \<le> 2147483648"
  shows "\<exists>g'. run x86_64 (replicate k (zero_mem, now)) g = Some g' \<and>
           uint (pfn (thp_scan g')) = uint (pfn (thp_scan g)) + 131072 * int k \<and>
           run_examined x86_64 (replicate k (zero_mem, now)) g us = us @ replicate (256 * k) 0"
  using assms
proof (induction k arbitrary: g us)
  case 0
  show ?case by simp
next
  case (Suc k)
  have "uint (pfn (thp_scan g)) + 131072 \<le> 2147483648"
    using Suc.prems(2) by simp
  from zero_mem_firing [OF Suc.prems(1) this, of now us]
  obtain g1 where w: "thp_utilization_workfn x86_64 zero_mem now g = Some g1"
    and z1: "scan_zone (thp_scan g1) = Some zone_8T"
    and p1: "uint (pfn (thp_scan g1)) = uint (pfn (thp_scan g)) + 131072"
    and f1: "firing_examined x86_64 zero_mem g us = us @ replicate 256 0"
    by blast
  have "uint (pfn (thp_scan g1)) + 131072 * int k \<le> 2147483648"
    using Suc.prems(2) p1 by simp
  from Suc.IH [OF disjI2 [OF z1] this, of "us @ replicate 256 0"]
  obtain g' where r: "run x86_64 (replicate k (zero_mem, now)) g1 = Some g'"
    and p: "uint (pfn (thp_scan g')) = uint (pfn (thp_scan g1)) + 131072 * int k"
    and x: "run_examined x86_64 (replicate k (zero_mem, now)) g1 (us @ replicate 256 0) =
        (us @ replicate 256 0) @ replicate (256 * k) 0"
    by blast
  have "replicate 256 (0 :: c_int) @ replicate (256 * k) 0 = replicate (256 * Suc k) 0"
    by (simp add: replicate_add [symmetric])
  then have "run_examined x86_64 (replicate (Suc k) (zero_mem, now)) g us = us @ replicate (256 * Suc k) 0"
    by (simp add: w f1 x)
  moreover have "run x86_64 (replicate (Suc k) (zero_mem, now)) g = Some g'"
    by (simp add: w r)
  moreover have "uint (pfn (thp_scan g')) = uint (pfn (thp_scan g)) + 131072 * int (Suc k)"
    using p p1 by simp
  ultimately show ?case by blast
qed

lemma placed_zeros: "placed x86_64 0 (replicate n 0) = replicate n 0"
  by (simp add: placed_def filter_replicate bucket_x86_64(1))

text \<open>
  Where the bound fails: 16384 firings over 8 TiB of zero-filled anonymous huge pages stay
  within one pass and place 4194304 units, each with utilized count 0, in bucket 0. The
  bucket's \<^verbatim>\<open>nr_thps\<close> is 4194304, but its \<^verbatim>\<open>nr_zero_pages\<close> has wrapped to \<open>-2\<^sup>3\<^sup>1\<close>: it is
  negative, and it is not \<open>4194304 * 512 - 0\<close>.
\<close>

theorem accumulator_overflow:
  "run x86_64 (replicate 16384 (zero_mem, noon)) initial_globals \<noteq> None \<and>
   run_examined x86_64 (replicate 16384 (zero_mem, noon)) initial_globals [] = replicate 4194304 0 \<and>
   placed x86_64 0 (replicate 4194304 0) = replicate 4194304 0 \<and>
   sint (nr_thps (buckets (thp_scan (the (run x86_64 (replicate 16384 (zero_mem, noon)) initial_globals))) ! 0))
     = 4194304 \<and>
   sint (nr_zero_pages (buckets (thp_scan (the (run x86_64 (replicate 16384 (zero_mem, noon)) initial_globals))) ! 0))
     = - 2147483648"
proof -
  let ?fs = "replicate 16384 (zero_mem, noon)"
  have i: "scan_zone (thp_scan initial_globals) = None \<or> scan_zone (thp_scan initial_globals) = Some zone_8T"
    "uint (pfn (thp_scan initial_globals)) + 131072 * int 16384 \<le> 2147483648"
    by (simp_all add: initial_globals_def zero_scan_info_def)
  from zero_mem_run [OF i, of noon "[]"]
  obtain g where r: "run x86_64 ?fs initial_globals = Some g"
    and x: "run_examined x86_64 ?fs initial_globals [] = replicate 4194304 0"
    by auto
  have "acc_inv x86_64 (buckets (thp_scan initial_globals)) []"
    by (simp add: initial_globals_def zero_scan_info_def acc_inv_zero)
  from acc_inv_run [OF r this] have a: "acc_inv x86_64 (buckets (thp_scan g)) (replicate 4194304 0)"
    by (simp only: x)
  then have t: "nr_thps (buckets (thp_scan g) ! 0) = word_of_nat (length (placed x86_64 0 (replicate 4194304 0)))"
    and zp: "nr_zero_pages (buckets (thp_scan g) ! 0) =
      sum_list (map (\<lambda>u. HPAGE_PMD_NR x86_64 - u) (placed x86_64 0 (replicate 4194304 0)))"
    by (simp_all add: acc_inv_def)
  have t': "sint (nr_thps (buckets (thp_scan g) ! 0)) = 4194304"
    unfolding t placed_zeros by simp
  have "nr_zero_pages (buckets (thp_scan g) ! 0) = 2147483648"
    unfolding zp placed_zeros by (simp add: sum_list_replicate x86_64_def)
  then have z': "sint (nr_zero_pages (buckets (thp_scan g) ! 0)) = - 2147483648"
    by simp
  show ?thesis
    unfolding r x placed_zeros using t' z' by simp
qed


end
